theory Spec2Isabelle
  imports Main "HOL-Library.Multiset"
begin

section \<open>The poker program of Chapter5_Pointers_And_Strings/excercise_12.cpp\<close>

text \<open>
  The program shuffles a 4 x 13 deck, deals two five-card hands out of it and classifies
  each hand from two frequency tables. The embedding follows the source function by
  function and keeps its names.

  Conventions of the embedding:
  \<^item> a C++ \<open>int\<close> is an \<open>int\<close>, and \<open>+\<close> on it is the addition of the integers. The
    program has two additions on values that come from its caller: \<open>startOrder + dealIdx\<close>
    and the \<open>++\<close> of a counter. They are the 32-bit additions of the source as long as
    the sum is at most \<open>INT_MAX\<close>. A theorem about a start order or about counters that
    the caller chooses takes the bounds that keep every sum in that range as hypotheses,
    and concludes that the sums are in the range;
  \<^item> a loop counter that runs over array indices (\<open>r\<close>, \<open>s\<close>, \<open>p\<close>, \<open>q\<close>, \<open>dealIdx\<close>)
    is a \<open>nat\<close>, and the index range of a \<open>for\<close> loop is the list \<open>[a..<b]\<close>;
  \<^item> an array is a list. The classifier only reads its tables, at the indices 2..14 and
    0..3; its theorems take the lengths of the arrays that \<open>main\<close> passes (15 and 4) as
    hypotheses. The functions that write to arrays passed by pointer check every index
    against the length of the list and return an error value when it is out of range;
  \<^item> text written to \<open>cout\<close> is not part of the model.
\<close>

subsection \<open>Hand classifier\<close>

text \<open>\<open>countRanksWithFrequency\<close>: the loop \<open>for (r = 2; r <= 14; r++)\<close> with its counter.\<close>

definition countRanksWithFrequency :: "int list \<Rightarrow> int \<Rightarrow> int" where
  "countRanksWithFrequency rankCount N =
     fold (\<lambda>r count. if rankCount ! r = N then count + 1 else count) [2..<15] 0"

text \<open>\<open>isFlush\<close>: the loop over the four suits returns at the first suit counted 5 times.\<close>

fun isFlushFrom :: "int list \<Rightarrow> nat list \<Rightarrow> bool" where
  "isFlushFrom suitCount [] = False"
| "isFlushFrom suitCount (s # ss) =
     (if suitCount ! s = 5 then True else isFlushFrom suitCount ss)"

definition isFlush :: "int list \<Rightarrow> bool" where
  "isFlush suitCount = isFlushFrom suitCount [0..<4]"

text \<open>
  The run detection loop of \<open>isStraight\<close>: \<open>runLength\<close> is the loop's variable, the list
  holds the ranks still to visit.
\<close>

fun runScan :: "int list \<Rightarrow> nat list \<Rightarrow> int \<Rightarrow> bool" where
  "runScan rankCount [] runLength = False"
| "runScan rankCount (r # rs) runLength =
     (if rankCount ! r = 1
      then (if runLength + 1 = 5 then True else runScan rankCount rs (runLength + 1))
      else runScan rankCount rs 0)"

definition isStraight :: "int list \<Rightarrow> bool" where
  "isStraight rankCount =
     (if countRanksWithFrequency rankCount 1 \<noteq> 5 then False
      else if rankCount ! 14 = 1 \<and> rankCount ! 2 = 1 \<and> rankCount ! 3 = 1 \<and>
              rankCount ! 4 = 1 \<and> rankCount ! 5 = 1 then True
      else runScan rankCount [2..<15] 0)"

definition isOnePair :: "int list \<Rightarrow> bool" where
  "isOnePair rankCount = (countRanksWithFrequency rankCount 2 = 1)"

definition isTwoPair :: "int list \<Rightarrow> bool" where
  "isTwoPair rankCount = (countRanksWithFrequency rankCount 2 = 2)"

definition isThreeOfAKind :: "int list \<Rightarrow> bool" where
  "isThreeOfAKind rankCount =
     (countRanksWithFrequency rankCount 3 = 1 \<and> countRanksWithFrequency rankCount 2 = 0)"

definition isFourOfAKind :: "int list \<Rightarrow> bool" where
  "isFourOfAKind rankCount = (countRanksWithFrequency rankCount 4 = 1)"

definition isFullHouse :: "int list \<Rightarrow> bool" where
  "isFullHouse rankCount =
     (countRanksWithFrequency rankCount 3 = 1 \<and> countRanksWithFrequency rankCount 2 = 1)"

definition handleHand :: "int list \<Rightarrow> int list \<Rightarrow> int" where
  "handleHand rankCount suitCount =
     (if isStraight rankCount \<and> isFlush suitCount then 1
      else if isFourOfAKind rankCount then 2
      else if isFullHouse rankCount then 3
      else if isFlush suitCount then 4
      else if isStraight rankCount then 5
      else if isThreeOfAKind rankCount then 6
      else if isTwoPair rankCount then 7
      else if isOnePair rankCount then 8
      else 9)"

subsection \<open>The classifier as the specification words it\<close>

text \<open>
  A frequency table of a five-card hand: non-negative counts that sum to 5, over the ranks
  2..14 (in an array of 15 entries whose entries 0 and 1 are unused) and over the suits
  0..3.
\<close>

definition rankTable :: "int list \<Rightarrow> bool" where
  "rankTable rc \<longleftrightarrow>
     length rc = 15 \<and> (\<forall>r\<in>{2..<15}. 0 \<le> rc ! r) \<and> sum_list (map ((!) rc) [2..<15]) = 5"

definition suitTable :: "int list \<Rightarrow> bool" where
  "suitTable sc \<longleftrightarrow>
     length sc = 4 \<and> (\<forall>s\<in>{0..<4}. 0 \<le> sc ! s) \<and> sum_list (map ((!) sc) [0..<4]) = 5"

text \<open>
  The category ladder in the words of the specification. The ranks present in the hand
  are listed in ascending order; a straight is "5 distinct ascending ranks, consecutive,
  or the wheel A-2-3-4-5".
\<close>

definition ranksPresent :: "int list \<Rightarrow> nat list" where
  "ranksPresent rc = filter (\<lambda>r. 0 < rc ! r) [2..<15]"

definition specStraight :: "int list \<Rightarrow> bool" where
  "specStraight rc \<longleftrightarrow>
     length (ranksPresent rc) = 5 \<and>
     ((\<exists>lo\<in>{2..<11}. ranksPresent rc = [lo..<lo + 5]) \<or> ranksPresent rc = [2, 3, 4, 5, 14])"

text \<open>Flush: "one suit count 5".\<close>

definition specFlush :: "int list \<Rightarrow> bool" where
  "specFlush sc \<longleftrightarrow> (\<exists>s\<in>{0..<4}. sc ! s = 5)"

text \<open>Four of a kind: "one rank with count 4".\<close>

definition specFourOfAKind :: "int list \<Rightarrow> bool" where
  "specFourOfAKind rc \<longleftrightarrow> (\<exists>r\<in>{2..<15}. rc ! r = 4)"

text \<open>Full house: "one rank count 3 and one rank count 2".\<close>

definition specFullHouse :: "int list \<Rightarrow> bool" where
  "specFullHouse rc \<longleftrightarrow> (\<exists>r\<in>{2..<15}. rc ! r = 3) \<and> (\<exists>r\<in>{2..<15}. rc ! r = 2)"

text \<open>Three of a kind: "one rank count 3, zero ranks count 2".\<close>

definition specThreeOfAKind :: "int list \<Rightarrow> bool" where
  "specThreeOfAKind rc \<longleftrightarrow> (\<exists>r\<in>{2..<15}. rc ! r = 3) \<and> \<not> (\<exists>r\<in>{2..<15}. rc ! r = 2)"

text \<open>Two pair: "exactly two ranks count 2"; one pair: "exactly one rank count 2".\<close>

definition specTwoPair :: "int list \<Rightarrow> bool" where
  "specTwoPair rc \<longleftrightarrow> length (filter (\<lambda>r. rc ! r = 2) [2..<15]) = 2"

definition specOnePair :: "int list \<Rightarrow> bool" where
  "specOnePair rc \<longleftrightarrow> length (filter (\<lambda>r. rc ! r = 2) [2..<15]) = 1"

text \<open>The nine rungs in their order of precedence; the first that matches wins.\<close>

definition specLadder :: "int list \<Rightarrow> int list \<Rightarrow> int" where
  "specLadder rc sc =
     (if specStraight rc \<and> specFlush sc then 1
      else if specFourOfAKind rc then 2
      else if specFullHouse rc then 3
      else if specFlush sc then 4
      else if specStraight rc then 5
      else if specThreeOfAKind rc then 6
      else if specTwoPair rc then 7
      else if specOnePair rc then 8
      else 9)"

subsection \<open>Deck\<close>

text \<open>
  \<open>int deck[4][13]\<close> is a list of 4 rows of 13 entries; \<open>deck ! p ! q\<close> is the order
  number of the card of suit \<open>p\<close> and face \<open>q\<close>. Every access of the program to the deck is
  at a row below 4 and a column below 13 (loop bounds, \<open>% 4\<close> and \<open>% 13\<close>), so the shape
  of the array is a hypothesis of the theorems and not a run-time check.
\<close>

type_synonym deck = "int list list"

definition deckShape :: "deck \<Rightarrow> bool" where
  "deckShape deck \<longleftrightarrow> length deck = 4 \<and> list_all (\<lambda>row. length row = 13) deck"

text \<open>The 52 slots (suit, face) in the order in which the nested loops visit them.\<close>

definition slots :: "(nat \<times> nat) list" where
  "slots = List.product [0..<4] [0..<13]"

definition slotValue :: "deck \<Rightarrow> nat \<times> nat \<Rightarrow> int" where
  "slotValue deck slot = deck ! fst slot ! snd slot"

definition orderValues :: "deck \<Rightarrow> int list" where
  "orderValues deck = map (slotValue deck) slots"

text \<open>
  The invariant of a shuffled deck: its 52 slots hold the numbers 1..52, each of them once.
\<close>

definition deckInv :: "deck \<Rightarrow> bool" where
  "deckInv deck \<longleftrightarrow> deckShape deck \<and> mset (orderValues deck) = mset (map int [1..<53])"

subsection \<open>\<open>shuffleDeck\<close>\<close>

text \<open>
  The random source is the sequence of the values that \<open>rand()\<close> returns: \<open>rnd k\<close> is the
  result of the \<open>k\<close>-th call after the start of \<open>shuffleDeck\<close>. \<open>rand()\<close> returns a value
  in 0..\<open>RAND_MAX\<close>, hence a \<open>nat\<close>, and \<open>%\<close> is \<open>mod\<close> on it. The functions pass on the
  number of calls made so far.
\<close>

definition setSlot :: "deck \<Rightarrow> nat \<Rightarrow> nat \<Rightarrow> int \<Rightarrow> deck" where
  "setSlot deck row col v = deck[row := (deck ! row)[col := v]]"

text \<open>The two nested loops that clear the deck.\<close>

definition clearDeck :: "deck \<Rightarrow> deck" where
  "clearDeck deck =
     fold (\<lambda>r d. fold (\<lambda>c d'. setSlot d' r c 0) [0..<13] d) [0..<4] deck"

text \<open>
  The \<open>do ... while (deck[row][col] != 0)\<close> loop: it draws a row and a column until the slot
  is empty, and may draw for ever. \<open>None\<close> is the loop that does not end.
\<close>

partial_function (option) pickSlot :: "(nat \<Rightarrow> nat) \<Rightarrow> deck \<Rightarrow> nat \<Rightarrow> (nat \<times> nat \<times> nat) option" where
  "pickSlot rnd deck k =
     (let row = rnd k mod 4; col = rnd (k + 1) mod 13
      in if deck ! row ! col \<noteq> 0 then pickSlot rnd deck (k + 2) else Some (row, col, k + 2))"

declare pickSlot.simps [code]

text \<open>The loop \<open>for (i = 1; i <= DECKSIZE; i++)\<close>, over the order numbers still to place.\<close>

fun placeOrders :: "(nat \<Rightarrow> nat) \<Rightarrow> nat list \<Rightarrow> deck \<Rightarrow> nat \<Rightarrow> (deck \<times> nat) option" where
  "placeOrders rnd [] deck k = Some (deck, k)"
| "placeOrders rnd (i # rest) deck k =
     (case pickSlot rnd deck k of
        None \<Rightarrow> None
      | Some (row, col, k') \<Rightarrow> placeOrders rnd rest (setSlot deck row col (int i)) k')"

definition shuffleDeck :: "(nat \<Rightarrow> nat) \<Rightarrow> deck \<Rightarrow> (deck \<times> nat) option" where
  "shuffleDeck rnd deck = placeOrders rnd [1..<53] (clearDeck deck) 0"

text \<open>
  A fair random source: from any point on, every pair (row, column) is drawn again. The
  \<open>k\<close>-th pass of the \<open>do\<close> loop, counted over the whole shuffle, draws its row from
  \<open>rnd (2 * k)\<close> and its column from \<open>rnd (2 * k + 1)\<close>.
\<close>

definition fairSource :: "(nat \<Rightarrow> nat) \<Rightarrow> bool" where
  "fairSource rnd \<longleftrightarrow>
     (\<forall>n row col. row < 4 \<and> col < 13 \<longrightarrow>
        (\<exists>k\<ge>n. rnd (2 * k) mod 4 = row \<and> rnd (2 * k + 1) mod 13 = col))"

subsection \<open>Dealing a hand\<close>

definition rankValueFromFaceIndex :: "int \<Rightarrow> int" where
  "rankValueFromFaceIndex faceIdx = (if faceIdx = 0 then 14 else faceIdx + 1)"

text \<open>
  The four output arrays of \<open>dealFiveCardHandFromOrderRange\<close>, which \<open>main\<close> passes as the
  four global arrays of a hand. They are four separate arrays.
\<close>

record hand =
  outHandSuite :: "int list"
  outHandRank :: "int list"
  outRankCount :: "int list"
  outSuitCount :: "int list"

definition handShape :: "hand \<Rightarrow> bool" where
  "handShape h \<longleftrightarrow>
     length (outHandSuite h) = 5 \<and> length (outHandRank h) = 5 \<and>
     length (outRankCount h) = 15 \<and> length (outSuitCount h) = 4"

text \<open>
  A write through a pointer at an index outside the array is undefined behaviour in C++;
  the model returns the error value there.
\<close>

datatype error = OutOfBounds

definition bindE :: "error + 'a \<Rightarrow> ('a \<Rightarrow> error + 'b) \<Rightarrow> error + 'b" where
  "bindE m f = (case m of Inl e \<Rightarrow> Inl e | Inr x \<Rightarrow> f x)"

definition store :: "int list \<Rightarrow> int \<Rightarrow> int \<Rightarrow> error + int list" where
  "store xs i v =
     (if 0 \<le> i \<and> nat i < length xs then Inr (xs[nat i := v]) else Inl OutOfBounds)"

definition increment :: "int list \<Rightarrow> int \<Rightarrow> error + int list" where
  "increment xs i =
     (if 0 \<le> i \<and> nat i < length xs then Inr (xs[nat i := xs ! nat i + 1])
      else Inl OutOfBounds)"

text \<open>A \<open>for\<close> loop over the indices of a list, with a body that may fail.\<close>

fun forE :: "'a list \<Rightarrow> ('a \<Rightarrow> 's \<Rightarrow> error + 's) \<Rightarrow> 's \<Rightarrow> error + 's" where
  "forE [] body s = Inr s"
| "forE (i # rest) body s = bindE (body i s) (forE rest body)"

text \<open>\<open>clearCountArrays\<close>, on the two count arrays of a hand.\<close>

definition clearCountArrays :: "hand \<Rightarrow> error + hand" where
  "clearCountArrays h =
     bindE (forE [0..<15] (\<lambda>i rankCount. store rankCount (int i) 0) (outRankCount h))
       (\<lambda>rankCount.
     bindE (forE [0..<4] (\<lambda>i suitCount. store suitCount (int i) 0) (outSuitCount h))
       (\<lambda>suitCount.
     Inr (h\<lparr>outRankCount := rankCount, outSuitCount := suitCount\<rparr>)))"

text \<open>
  The body of \<open>if (deck[p][q] == orderWanted)\<close>: the two stores into the hand and the two
  increments of the count arrays.
\<close>

definition dealCard :: "nat \<Rightarrow> nat \<Rightarrow> nat \<Rightarrow> hand \<Rightarrow> error + hand" where
  "dealCard dealIdx p q h =
     bindE (store (outHandSuite h) (int dealIdx) (int p)) (\<lambda>handSuite.
     let rank = rankValueFromFaceIndex (int q) in
     bindE (store (outHandRank h) (int dealIdx) rank) (\<lambda>handRank.
     bindE (increment (outRankCount h) rank) (\<lambda>rankCount.
     bindE (increment (outSuitCount h) (int p)) (\<lambda>suitCount.
     Inr \<lparr>outHandSuite = handSuite, outHandRank = handRank,
          outRankCount = rankCount, outSuitCount = suitCount\<rparr>))))"

text \<open>The scan of the whole deck for one order number, then the loop over the five cards.\<close>

definition dealOrder :: "deck \<Rightarrow> int \<Rightarrow> nat \<Rightarrow> hand \<Rightarrow> error + hand" where
  "dealOrder deck orderWanted dealIdx =
     forE [0..<4] (\<lambda>p. forE [0..<13] (\<lambda>q h.
       if deck ! p ! q = orderWanted then dealCard dealIdx p q h else Inr h))"

definition dealFiveCardHandFromOrderRange :: "deck \<Rightarrow> int \<Rightarrow> hand \<Rightarrow> error + hand" where
  "dealFiveCardHandFromOrderRange deck startOrder =
     forE [0..<5] (\<lambda>dealIdx. dealOrder deck (startOrder + int dealIdx) dealIdx)"

text \<open>
  What \<open>main\<close> does for each hand: clear the count arrays, then deal from a start order.
\<close>

definition clearThenDeal :: "deck \<Rightarrow> int \<Rightarrow> hand \<Rightarrow> error + hand" where
  "clearThenDeal deck startOrder h =
     bindE (clearCountArrays h) (dealFiveCardHandFromOrderRange deck startOrder)"

subsection \<open>The hand extractor as the specification words it\<close>

text \<open>
  The slot that holds an order number, the five cards for the order numbers \<open>S..S+4\<close> in
  increasing order, and the output that the specification describes: the pairs (suit,
  derived rank) of these cards and two tables that count the ranks and the suits of
  these cards.
\<close>

definition slotOf :: "deck \<Rightarrow> int \<Rightarrow> (nat \<times> nat) option" where
  "slotOf deck v = find (\<lambda>slot. slotValue deck slot = v) slots"

definition handCards :: "deck \<Rightarrow> int \<Rightarrow> (nat \<times> nat) list" where
  "handCards deck S = map (\<lambda>i. the (slotOf deck (S + int i))) [0..<5]"

definition cardRank :: "nat \<times> nat \<Rightarrow> int" where
  "cardRank c = rankValueFromFaceIndex (int (snd c))"

definition specHand :: "deck \<Rightarrow> int \<Rightarrow> hand" where
  "specHand deck S =
     (let cards = handCards deck S in
      \<lparr>outHandSuite = map (\<lambda>c. int (fst c)) cards,
       outHandRank = map cardRank cards,
       outRankCount = map (\<lambda>r. int (length (filter (\<lambda>c. cardRank c = int r) cards))) [0..<15],
       outSuitCount = map (\<lambda>s. int (length (filter (\<lambda>c. fst c = s) cards))) [0..<4]\<rparr>)"

subsection \<open>The range of a 32-bit \<open>int\<close>\<close>




subsection \<open>The writes of a deal\<close>

text \<open>
  Two notions for the proofs about \<open>dealFiveCardHandFromOrderRange\<close>. \<open>dealWrites\<close> lists,
  in the order of the three nested loops, the pairs of a deal index and a slot at which
  the condition \<open>deck[p][q] == orderWanted\<close> holds. \<open>putCard\<close> is what the body of that
  condition does to the four arrays when each of its indices is inside its array.
\<close>

definition dealWrites :: "deck \<Rightarrow> int \<Rightarrow> (nat \<times> nat \<times> nat) list" where
  "dealWrites deck startOrder =
     concat (map (\<lambda>dealIdx. map (Pair dealIdx)
       (filter (\<lambda>slot. slotValue deck slot = startOrder + int dealIdx) slots)) [0..<5])"

definition putCard :: "nat \<times> nat \<times> nat \<Rightarrow> hand \<Rightarrow> hand" where
  "putCard w h =
     \<lparr>outHandSuite = (outHandSuite h)[fst w := int (fst (snd w))],
      outHandRank = (outHandRank h)[fst w := cardRank (snd w)],
      outRankCount = (outRankCount h)[nat (cardRank (snd w)) :=
                        outRankCount h ! nat (cardRank (snd w)) + 1],
      outSuitCount = (outSuitCount h)[fst (snd w) := outSuitCount h ! fst (snd w) + 1]\<rparr>"

text \<open>A sorted deck, for the examples: the card of suit \<open>p\<close> and face \<open>q\<close> is dealt as
  number \<open>13 * p + q + 1\<close>.\<close>

definition sortedDeck :: deck where
  "sortedDeck = map (\<lambda>p. map (\<lambda>q. int (13 * p + q + 1)) [0..<13]) [0..<4]"

text \<open>A hand whose arrays still hold earlier values, as they do before a second deal.\<close>

definition usedHand :: hand where
  "usedHand = \<lparr>outHandSuite = [9, 9, 9, 9, 9], outHandRank = [9, 9, 9, 9, 9],
                outRankCount = replicate 15 7, outSuitCount = replicate 4 7\<rparr>"

section \<open>Properties\<close>

declare upt_rec_numeral [simp del]

subsection \<open>Loops of the classifier\<close>

lemma count_fold:
  "fold (\<lambda>r count. if P r then count + 1 else count) rs (c::int) = c + int (length (filter P rs))"
  by (induction rs arbitrary: c) auto

lemma countRanks_filter:
  "countRanksWithFrequency rc N = int (length (filter (\<lambda>r. rc ! r = N) [2..<15]))"
  unfolding countRanksWithFrequency_def by (simp only: count_fold)

lemma isFlushFrom_iff: "isFlushFrom sc ss \<longleftrightarrow> (\<exists>s\<in>set ss. sc ! s = 5)"
  by (induction ss) auto

lemma runScan_iff:
  "k \<le> 4 \<Longrightarrow> runScan rc [a..<b] (int k) \<longleftrightarrow>
     (a + (5 - k) \<le> b \<and> (\<forall>r. a \<le> r \<and> r < a + (5 - k) \<longrightarrow> rc ! r = 1)) \<or>
     (\<exists>lo. a \<le> lo \<and> lo + 5 \<le> b \<and> (\<forall>r. lo \<le> r \<and> r < lo + 5 \<longrightarrow> rc ! r = 1))"
proof (induction "b - a" arbitrary: a k)
  case 0
  then show ?case by auto
next
  case (Suc n)
  then have ab: "a < b" and n: "n = b - Suc a" by auto
  have upt: "[a..<b] = a # [Suc a..<b]" using ab by (simp add: upt_conv_Cons)
  show ?case
  proof (cases "rc ! a = 1")
    case one: True
    show ?thesis
    proof (cases "k = 4")
      case True
      have "\<And>r. a \<le> r \<and> r < a + (5 - k) \<Longrightarrow> rc ! r = 1"
      proof -
        fix r assume "a \<le> r \<and> r < a + (5 - k)"
        then have "r = a" using True by simp
        then show "rc ! r = 1" using one by simp
      qed
      moreover have "a + (5 - k) \<le> b" using True ab by simp
      moreover have "runScan rc [a..<b] (int k)" unfolding upt using one True by simp
      ultimately show ?thesis by blast
    next
      case False
      then have k: "Suc k \<le> 4" using Suc.prems by simp
      have "runScan rc [a..<b] (int k) = runScan rc [Suc a..<b] (int (Suc k))"
        unfolding upt using one False by (simp add: add.commute)
      also have "\<dots> \<longleftrightarrow> (Suc a + (5 - Suc k) \<le> b \<and> (\<forall>r. Suc a \<le> r \<and> r < Suc a + (5 - Suc k) \<longrightarrow> rc ! r = 1)) \<or>
     (\<exists>lo. Suc a \<le> lo \<and> lo + 5 \<le> b \<and> (\<forall>r. lo \<le> r \<and> r < lo + 5 \<longrightarrow> rc ! r = 1))"
        using Suc.hyps(1)[OF n k] .
      also have "\<dots> \<longleftrightarrow> (a + (5 - k) \<le> b \<and> (\<forall>r. a \<le> r \<and> r < a + (5 - k) \<longrightarrow> rc ! r = 1)) \<or>
     (\<exists>lo. a \<le> lo \<and> lo + 5 \<le> b \<and> (\<forall>r. lo \<le> r \<and> r < lo + 5 \<longrightarrow> rc ! r = 1))"
        (is "?A1 \<or> ?B1 \<longleftrightarrow> ?A \<or> ?B")
      proof
        assume "?A1 \<or> ?B1"
        then show "?A \<or> ?B"
        proof
          assume a1: ?A1
          have "\<And>r. a \<le> r \<and> r < a + (5 - k) \<Longrightarrow> rc ! r = 1"
          proof -
            fix r assume r: "a \<le> r \<and> r < a + (5 - k)"
            show "rc ! r = 1"
            proof (cases "r = a")
              case True then show ?thesis using one by simp
            next
              case False
              then have "Suc a \<le> r \<and> r < Suc a + (5 - Suc k)" using r k by auto
              then show ?thesis using a1 by blast
            qed
          qed
          moreover have "a + (5 - k) \<le> b" using a1 k by auto
          ultimately show ?thesis by blast
        next
          assume ?B1
          then obtain lo where "Suc a \<le> lo" "lo + 5 \<le> b" "\<forall>r. lo \<le> r \<and> r < lo + 5 \<longrightarrow> rc ! r = 1" by blast
          then have "a \<le> lo \<and> lo + 5 \<le> b \<and> (\<forall>r. lo \<le> r \<and> r < lo + 5 \<longrightarrow> rc ! r = 1)" by simp
          then show ?thesis by blast
        qed
      next
        assume "?A \<or> ?B"
        then show "?A1 \<or> ?B1"
        proof
          assume a: ?A
          then have "Suc a + (5 - Suc k) \<le> b" using k by auto
          moreover have "\<forall>r. Suc a \<le> r \<and> r < Suc a + (5 - Suc k) \<longrightarrow> rc ! r = 1"
            using a k by auto
          ultimately show ?thesis by blast
        next
          assume ?B
          then obtain lo where lo: "a \<le> lo" "lo + 5 \<le> b" "\<forall>r. lo \<le> r \<and> r < lo + 5 \<longrightarrow> rc ! r = 1" by blast
          show ?thesis
          proof (cases "lo = a")
            case True
            have "Suc a + (5 - Suc k) \<le> b" using lo True k by auto
            moreover have "\<forall>r. Suc a \<le> r \<and> r < Suc a + (5 - Suc k) \<longrightarrow> rc ! r = 1"
              using lo True k by auto
            ultimately show ?thesis by blast
          next
            case False
            then have "Suc a \<le> lo" using lo by simp
            then show ?thesis using lo by blast
          qed
        qed
      qed
      finally show ?thesis .
    qed
  next
    case notone: False
    have "runScan rc [a..<b] (int k) = runScan rc [Suc a..<b] (int 0)"
      unfolding upt using notone by simp
    also have "\<dots> \<longleftrightarrow> (Suc a + (5 - 0) \<le> b \<and> (\<forall>r. Suc a \<le> r \<and> r < Suc a + (5 - 0) \<longrightarrow> rc ! r = 1)) \<or>
     (\<exists>lo. Suc a \<le> lo \<and> lo + 5 \<le> b \<and> (\<forall>r. lo \<le> r \<and> r < lo + 5 \<longrightarrow> rc ! r = 1))"
      using Suc.hyps(1)[OF n, of 0] by simp
    also have "\<dots> \<longleftrightarrow> (\<exists>lo. Suc a \<le> lo \<and> lo + 5 \<le> b \<and> (\<forall>r. lo \<le> r \<and> r < lo + 5 \<longrightarrow> rc ! r = 1))"
      by auto
    also have "\<dots> \<longleftrightarrow> (\<exists>lo. a \<le> lo \<and> lo + 5 \<le> b \<and> (\<forall>r. lo \<le> r \<and> r < lo + 5 \<longrightarrow> rc ! r = 1))"
      (is "?L \<longleftrightarrow> ?R")
    proof
      assume ?L then show ?R by (meson Suc_leD)
    next
      assume ?R
      then obtain lo where lo: "a \<le> lo" "lo + 5 \<le> b" "\<forall>r. lo \<le> r \<and> r < lo + 5 \<longrightarrow> rc ! r = 1" by blast
      have "lo \<noteq> a" using lo(3) notone by auto
      then have "Suc a \<le> lo" using lo by simp
      then show ?L using lo by blast
    qed
    also have "\<dots> \<longleftrightarrow> (a + (5 - k) \<le> b \<and> (\<forall>r. a \<le> r \<and> r < a + (5 - k) \<longrightarrow> rc ! r = 1)) \<or>
     (\<exists>lo. a \<le> lo \<and> lo + 5 \<le> b \<and> (\<forall>r. lo \<le> r \<and> r < lo + 5 \<longrightarrow> rc ! r = 1))"
    proof -
      have "\<not> (\<forall>r. a \<le> r \<and> r < a + (5 - k) \<longrightarrow> rc ! r = 1)"
        using notone Suc.prems by (auto intro!: exI[of _ a])
      then show ?thesis by blast
    qed
    finally show ?thesis .
  qed
qed

subsection \<open>Tables of a five-card hand\<close>

lemma rankTable_sum: "rankTable rc \<Longrightarrow> (\<Sum>r\<in>{2..<15}. rc ! r) = 5"
  unfolding rankTable_def using sum_set_upt_conv_sum_list_nat[of "(!) rc" 2 15]
  by (simp only: atLeastLessThan_upt)

lemma rankTable_nonneg: "rankTable rc \<Longrightarrow> r \<in> {2..<15} \<Longrightarrow> 0 \<le> rc ! r"
  unfolding rankTable_def by blast

lemma length_filter_card: "length (filter P [a..<b]) = card {r \<in> {a..<b}. P r}"
proof -
  have "distinct (filter P [a..<b])" by simp
  then have "length (filter P [a..<b]) = card (set (filter P [a..<b]))"
    by (rule distinct_card[symmetric])
  then show ?thesis by simp
qed

lemma ones_only:
  assumes t: "rankTable rc" and five: "card {r \<in> {2..<15}. rc ! r = 1} = 5"
    and r: "r \<in> {2..<15}"
  shows "rc ! r = 1 \<or> rc ! r = 0"
proof -
  define A where "A = {2..<15::nat}"
  define Os where "Os = {r \<in> A. rc ! r = 1}"
  have fin: "finite A" and sub: "Os \<subseteq> A" by (auto simp: A_def Os_def)
  have split: "(\<Sum>r\<in>A. rc ! r) = (\<Sum>r\<in>A - Os. rc ! r) + (\<Sum>r\<in>Os. rc ! r)"
    using sub fin by (rule sum.subset_diff)
  have "(\<Sum>r\<in>Os. rc ! r) = (\<Sum>r\<in>Os. 1)"
    by (rule sum.cong) (auto simp: Os_def)
  also have "\<dots> = int (card Os)" by simp
  also have "\<dots> = 5" using five by (simp add: Os_def A_def)
  finally have s5: "(\<Sum>r\<in>Os. rc ! r) = 5" .
  have tot: "(\<Sum>r\<in>A. rc ! r) = 5" using rankTable_sum[OF t] by (simp add: A_def)
  have z: "(\<Sum>r\<in>A - Os. rc ! r) = 0" using split s5 tot by linarith
  have nn: "\<forall>r\<in>A - Os. 0 \<le> rc ! r" using rankTable_nonneg[OF t] by (simp add: A_def)
  have fin': "finite (A - Os)" using fin by simp
  have zero: "\<forall>r\<in>A - Os. rc ! r = 0"
    using z nn sum_nonneg_eq_0_iff[of "A - Os" "\<lambda>r. rc ! r"] fin' by blast
  have rA: "r \<in> A" using r by (simp add: A_def)
  show ?thesis
  proof (cases "r \<in> Os")
    case True
    then show ?thesis by (simp add: Os_def)
  next
    case False
    then have "r \<in> A - Os" using rA by simp
    then show ?thesis using zero by blast
  qed
qed

lemma present_only:
  assumes t: "rankTable rc" and five: "card {r \<in> {2..<15}. 0 < rc ! r} = 5"
    and r: "r \<in> {2..<15}"
  shows "rc ! r = 1 \<or> rc ! r = 0"
proof -
  define A where "A = {2..<15::nat}"
  define P where "P = {r \<in> A. 0 < rc ! r}"
  have fin: "finite A" and sub: "P \<subseteq> A" by (auto simp: A_def P_def)
  have finP: "finite P" using fin sub by (rule rev_finite_subset)
  have nnA: "\<forall>r\<in>A. 0 \<le> rc ! r" using rankTable_nonneg[OF t] by (simp add: A_def)
  have "(\<Sum>r\<in>A. rc ! r) = (\<Sum>r\<in>A - P. rc ! r) + (\<Sum>r\<in>P. rc ! r)"
    using sub fin by (rule sum.subset_diff)
  moreover have "(\<Sum>r\<in>A - P. rc ! r) = 0"
  proof (rule sum.neutral, rule ballI)
    fix x assume "x \<in> A - P"
    then have "x \<in> A" "\<not> 0 < rc ! x" by (auto simp: P_def)
    then show "rc ! x = 0" using nnA by force
  qed
  moreover have "(\<Sum>r\<in>A. rc ! r) = 5" using rankTable_sum[OF t] by (simp add: A_def)
  ultimately have "(\<Sum>r\<in>P. rc ! r) = 5" by simp
  moreover have "card P = 5" using five by (simp add: P_def A_def)
  ultimately have "(\<Sum>r\<in>P. rc ! r - 1) = 0" by (simp add: sum_subtractf)
  moreover have "\<forall>r\<in>P. 0 \<le> rc ! r - 1" by (auto simp: P_def)
  ultimately have "\<forall>r\<in>P. rc ! r - 1 = 0"
    using finP sum_nonneg_eq_0_iff[of P "\<lambda>r. rc ! r - 1"] by blast
  moreover have "r \<in> A" using r by (simp add: A_def)
  ultimately show ?thesis using nnA by (force simp: P_def)
qed

lemma binary_filters:
  assumes "\<forall>r\<in>{2..<15}. rc ! r = 1 \<or> rc ! r = 0"
  shows "filter (\<lambda>r. rc ! r = 1) [2..<15] = ranksPresent rc"
  unfolding ranksPresent_def
proof (rule filter_cong[OF refl])
  fix x :: nat assume "x \<in> set [2..<15]"
  then have "x \<in> {2..<15}" by simp
  then have "rc ! x = 1 \<or> rc ! x = 0" using assms by blast
  then show "(rc ! x = 1) = (0 < rc ! x)" by auto
qed

lemma five_ones_iff_five_present:
  assumes t: "rankTable rc"
  shows "countRanksWithFrequency rc 1 = 5 \<longleftrightarrow> length (ranksPresent rc) = 5"
proof
  assume "countRanksWithFrequency rc 1 = 5"
  then have len: "length (filter (\<lambda>r. rc ! r = 1) [2..<15]) = 5"
    by (simp add: countRanks_filter)
  then have "card {r \<in> {2..<15}. rc ! r = 1} = 5" by (simp add: length_filter_card)
  then have "\<forall>r\<in>{2..<15}. rc ! r = 1 \<or> rc ! r = 0" using ones_only[OF t] by blast
  then show "length (ranksPresent rc) = 5" using len binary_filters by metis
next
  assume len: "length (ranksPresent rc) = 5"
  then have "card {r \<in> {2..<15}. 0 < rc ! r} = 5"
    by (simp add: ranksPresent_def length_filter_card)
  then have "\<forall>r\<in>{2..<15}. rc ! r = 1 \<or> rc ! r = 0" using present_only[OF t] by blast
  then have "filter (\<lambda>r. rc ! r = 1) [2..<15] = ranksPresent rc" by (rule binary_filters)
  then show "countRanksWithFrequency rc 1 = 5" using len by (simp add: countRanks_filter)
qed

lemma five_present_binary:
  assumes t: "rankTable rc" and len: "length (ranksPresent rc) = 5"
  shows "\<forall>r\<in>{2..<15}. rc ! r = 1 \<or> rc ! r = 0"
proof -
  have "card {r \<in> {2..<15}. 0 < rc ! r} = 5"
    using len by (simp add: ranksPresent_def length_filter_card)
  then show ?thesis using present_only[OF t] by blast
qed

lemma present_eq_iff:
  assumes t: "rankTable rc" and len: "length (ranksPresent rc) = 5"
    and xs: "sorted xs" "distinct xs" "length xs = 5" "set xs \<subseteq> {2..<15}"
  shows "(\<forall>r\<in>set xs. rc ! r = 1) \<longleftrightarrow> ranksPresent rc = xs"
proof
  assume ones: "\<forall>r\<in>set xs. rc ! r = 1"
  have "set xs \<subseteq> set (ranksPresent rc)"
  proof
    fix r assume r: "r \<in> set xs"
    then have "rc ! r = 1" "r \<in> {2..<15}" using ones xs(4) by auto
    then show "r \<in> set (ranksPresent rc)" by (simp add: ranksPresent_def)
  qed
  moreover have "card (set xs) = card (set (ranksPresent rc))"
  proof -
    have "distinct (ranksPresent rc)" by (simp add: ranksPresent_def)
    then have "card (set (ranksPresent rc)) = length (ranksPresent rc)" by (rule distinct_card)
    moreover have "card (set xs) = length xs" using xs(2) by (rule distinct_card)
    ultimately show ?thesis using xs(3) len by simp
  qed
  ultimately have "set xs = set (ranksPresent rc)"
    by (intro card_subset_eq) auto
  moreover have "sorted (ranksPresent rc)" "distinct (ranksPresent rc)"
    by (simp_all add: ranksPresent_def sorted_wrt_filter)
  ultimately show "ranksPresent rc = xs"
    using xs(1,2) by (metis sorted_distinct_set_unique)
next
  assume eq: "ranksPresent rc = xs"
  show "\<forall>r\<in>set xs. rc ! r = 1"
  proof
    fix r assume "r \<in> set xs"
    then have "r \<in> set (ranksPresent rc)" using eq by simp
    then have "r \<in> {2..<15}" "0 < rc ! r" by (simp_all add: ranksPresent_def)
    then show "rc ! r = 1" using five_present_binary[OF t len] by force
  qed
qed

lemma wheel_list: "sorted [2, 3, 4, 5, 14::nat] \<and> distinct [2, 3, 4, 5, 14::nat] \<and>
  length [2, 3, 4, 5, 14::nat] = 5 \<and> set [2, 3, 4, 5, 14::nat] \<subseteq> {2..<15}"
  by simp

lemma runScan_ranks:
  "runScan rc [2..<15] 0 \<longleftrightarrow> (\<exists>lo\<in>{2..<11}. \<forall>r\<in>set [lo..<lo + 5]. rc ! r = 1)"
proof -
  have "runScan rc [2..<15] 0 \<longleftrightarrow>
     (2 + (5 - 0) \<le> (15::nat) \<and> (\<forall>r. 2 \<le> r \<and> r < 2 + (5 - 0) \<longrightarrow> rc ! r = 1)) \<or>
     (\<exists>lo. 2 \<le> lo \<and> lo + 5 \<le> 15 \<and> (\<forall>r. lo \<le> r \<and> r < lo + 5 \<longrightarrow> rc ! r = 1))"
    using runScan_iff[of 0 rc 2 15] by simp
  also have "\<dots> \<longleftrightarrow> (\<exists>lo. 2 \<le> lo \<and> lo + 5 \<le> 15 \<and> (\<forall>r. lo \<le> r \<and> r < lo + 5 \<longrightarrow> rc ! r = 1))"
    (is "?A \<or> ?B \<longleftrightarrow> ?B")
  proof -
    have "?B" if "?A" by (rule exI[of _ 2]) (use that in simp)
    then show ?thesis by blast
  qed
  also have "\<dots> \<longleftrightarrow> (\<exists>lo\<in>{2..<11}. \<forall>r\<in>set [lo..<lo + 5]. rc ! r = 1)"
    by (auto simp: Bex_def)
  finally show ?thesis .
qed

lemma isStraight_spec:
  assumes t: "rankTable rc"
  shows "isStraight rc \<longleftrightarrow> specStraight rc"
proof (cases "length (ranksPresent rc) = 5")
  case False
  then have "countRanksWithFrequency rc 1 \<noteq> 5"
    using five_ones_iff_five_present[OF t] by simp
  then have "\<not> isStraight rc" by (simp add: isStraight_def)
  moreover have "\<not> specStraight rc" using False by (simp add: specStraight_def)
  ultimately show ?thesis by simp
next
  case len: True
  then have c5: "countRanksWithFrequency rc 1 = 5"
    using five_ones_iff_five_present[OF t] by simp
  have wheel: "(rc ! 14 = 1 \<and> rc ! 2 = 1 \<and> rc ! 3 = 1 \<and> rc ! 4 = 1 \<and> rc ! 5 = 1)
      \<longleftrightarrow> ranksPresent rc = [2, 3, 4, 5, 14]"
    using present_eq_iff[OF t len, of "[2, 3, 4, 5, 14]"] wheel_list by auto
  have run: "runScan rc [2..<15] 0 \<longleftrightarrow> (\<exists>lo\<in>{2..<11}. ranksPresent rc = [lo..<lo + 5])"
  proof -
    have "\<And>lo. lo \<in> {2..<11} \<Longrightarrow>
        (\<forall>r\<in>set [lo..<lo + 5]. rc ! r = 1) \<longleftrightarrow> ranksPresent rc = [lo..<lo + 5]"
      by (rule present_eq_iff[OF t len]) auto
    then show ?thesis unfolding runScan_ranks by blast
  qed
  have "isStraight rc \<longleftrightarrow>
      (rc ! 14 = 1 \<and> rc ! 2 = 1 \<and> rc ! 3 = 1 \<and> rc ! 4 = 1 \<and> rc ! 5 = 1) \<or> runScan rc [2..<15] 0"
    using c5 by (auto simp: isStraight_def)
  then show ?thesis unfolding wheel run using len by (auto simp: specStraight_def)
qed

subsection \<open>The rungs of the ladder\<close>

lemma weights_list:
  "\<forall>r\<in>set rs. 0 \<le> f r \<Longrightarrow>
     4 * int (length (filter (\<lambda>r. f r = 4) rs)) + 3 * int (length (filter (\<lambda>r. f r = 3) rs)) +
     2 * int (length (filter (\<lambda>r. f r = 2) rs)) + int (length (filter (\<lambda>r. f r = 1) rs))
     \<le> sum_list (map f rs)" for f :: "nat \<Rightarrow> int"
  by (induction rs) auto

lemma rankTable_weights:
  assumes "rankTable rc"
  shows "4 * countRanksWithFrequency rc 4 + 3 * countRanksWithFrequency rc 3 +
         2 * countRanksWithFrequency rc 2 + countRanksWithFrequency rc 1 \<le> 5"
proof -
  have "\<forall>r\<in>set [2..<15]. 0 \<le> rc ! r" using assms by (simp add: rankTable_def)
  then show ?thesis
    using weights_list[of "[2..<15]" "(!) rc"] assms
    by (simp add: countRanks_filter rankTable_def)
qed

lemma countRanks_nonneg: "0 \<le> countRanksWithFrequency rc N"
  by (simp add: countRanks_filter)

lemma countRanks_pos_iff:
  "0 < countRanksWithFrequency rc N \<longleftrightarrow> (\<exists>r\<in>{2..<15}. rc ! r = N)"
proof -
  have "0 < countRanksWithFrequency rc N \<longleftrightarrow> filter (\<lambda>r. rc ! r = N) [2..<15] \<noteq> []"
    by (simp add: countRanks_filter)
  also have "\<dots> \<longleftrightarrow> (\<exists>r\<in>set [2..<15]. rc ! r = N)"
    by (simp add: filter_empty_conv)
  finally show ?thesis by simp
qed

lemma isFlush_spec: "isFlush sc \<longleftrightarrow> specFlush sc"
  by (simp add: isFlush_def specFlush_def isFlushFrom_iff)

lemma isFourOfAKind_spec: "rankTable rc \<Longrightarrow> isFourOfAKind rc \<longleftrightarrow> specFourOfAKind rc"
  using rankTable_weights[of rc] countRanks_nonneg[of rc 3] countRanks_nonneg[of rc 2]
    countRanks_nonneg[of rc 1] countRanks_pos_iff[of rc 4]
  unfolding isFourOfAKind_def specFourOfAKind_def by linarith

lemma isFullHouse_spec: "rankTable rc \<Longrightarrow> isFullHouse rc \<longleftrightarrow> specFullHouse rc"
  using rankTable_weights[of rc] countRanks_nonneg[of rc 4]
    countRanks_nonneg[of rc 1] countRanks_pos_iff[of rc 3] countRanks_pos_iff[of rc 2]
  unfolding isFullHouse_def specFullHouse_def by linarith

lemma isThreeOfAKind_spec: "rankTable rc \<Longrightarrow> isThreeOfAKind rc \<longleftrightarrow> specThreeOfAKind rc"
  using rankTable_weights[of rc] countRanks_nonneg[of rc 4] countRanks_nonneg[of rc 2]
    countRanks_nonneg[of rc 1] countRanks_pos_iff[of rc 3] countRanks_pos_iff[of rc 2]
  unfolding isThreeOfAKind_def specThreeOfAKind_def by linarith

lemma isTwoPair_spec: "isTwoPair rc \<longleftrightarrow> specTwoPair rc"
  by (simp add: isTwoPair_def specTwoPair_def countRanks_filter)

lemma isOnePair_spec: "isOnePair rc \<longleftrightarrow> specOnePair rc"
  by (simp add: isOnePair_def specOnePair_def countRanks_filter)

lemma handleHand_spec: "rankTable rc \<Longrightarrow> handleHand rc sc = specLadder rc sc"
  unfolding handleHand_def specLadder_def
  by (simp only: isStraight_spec isFlush_spec isFourOfAKind_spec isFullHouse_spec
      isThreeOfAKind_spec isTwoPair_spec isOnePair_spec)

lemma handleHand_range: "1 \<le> handleHand rc sc \<and> handleHand rc sc \<le> 9"
  unfolding handleHand_def by simp

lemma full_house_is_3:
  assumes t: "rankTable rc" and a: "a \<in> {2..<15}" "rc ! a = 3" and b: "b \<in> {2..<15}" "rc ! b = 2"
  shows "handleHand rc sc = 3"
proof -
  have c3: "0 < countRanksWithFrequency rc 3" using a countRanks_pos_iff by blast
  have c2: "0 < countRanksWithFrequency rc 2" using b countRanks_pos_iff by blast
  note w = rankTable_weights[OF t] countRanks_nonneg[of rc 4] countRanks_nonneg[of rc 1]
  have "countRanksWithFrequency rc 1 \<noteq> 5" using w c3 c2 by linarith
  then have "\<not> isStraight rc" by (simp add: isStraight_def)
  moreover have "\<not> isFourOfAKind rc" unfolding isFourOfAKind_def using w c3 c2 by linarith
  moreover have "isFullHouse rc" unfolding isFullHouse_def using w c3 c2 by linarith
  ultimately show ?thesis by (simp add: handleHand_def)
qed

lemma quads_is_2:
  assumes t: "rankTable rc" and a: "a \<in> {2..<15}" "rc ! a = 4"
  shows "handleHand rc sc = 2"
proof -
  have c4: "0 < countRanksWithFrequency rc 4" using a countRanks_pos_iff by blast
  note w = rankTable_weights[OF t] countRanks_nonneg[of rc 3] countRanks_nonneg[of rc 2]
    countRanks_nonneg[of rc 1]
  have "countRanksWithFrequency rc 1 \<noteq> 5" using w c4 by linarith
  then have "\<not> isStraight rc" by (simp add: isStraight_def)
  moreover have "isFourOfAKind rc" unfolding isFourOfAKind_def using w c4 by linarith
  ultimately show ?thesis by (simp add: handleHand_def)
qed

subsection \<open>The deck under \<open>setSlot\<close> and \<open>clearDeck\<close>\<close>

lemma set_slots: "set slots = {0..<4} \<times> {0..<13}"
  by (simp add: slots_def)

lemma distinct_slots: "distinct slots"
  by (simp add: slots_def distinct_product)

lemma length_slots: "length slots = 52"
  by (simp add: slots_def)

lemma slot_bounds: "s \<in> set slots \<longleftrightarrow> fst s < 4 \<and> snd s < 13"
  by (cases s) (simp add: set_slots)

lemma deckShape_setSlot: "deckShape d \<Longrightarrow> deckShape (setSlot d r c v)"
proof (cases "r < length d")
  case True
  assume "deckShape d"
  then show ?thesis
    unfolding deckShape_def setSlot_def list_all_length using True
    by (auto simp: nth_list_update)
next
  case False
  assume "deckShape d"
  then show ?thesis using False by (simp add: setSlot_def list_update_beyond)
qed

lemma setSlot_nth:
  assumes "deckShape d" and "r' < 4" and "c' < 13"
  shows "setSlot d r c v ! r' ! c' = (if r' = r \<and> c' = c then v else d ! r' ! c')"
proof -
  have len: "length d = 4" and row: "length (d ! r') = 13"
    using assms by (simp_all add: deckShape_def list_all_length)
  show ?thesis
  proof (cases "r' = r")
    case True
    then have "setSlot d r c v ! r' = (d ! r)[c := v]"
      using len assms(2) by (simp add: setSlot_def)
    then show ?thesis using True row assms(3) by (auto simp: nth_list_update)
  next
    case False
    then have "setSlot d r c v ! r' = d ! r'" by (simp add: setSlot_def)
    then show ?thesis using False by simp
  qed
qed

lemma slotValue_setSlot:
  assumes "deckShape d" and "s \<in> set slots"
  shows "slotValue (setSlot d r c v) s = ((slotValue d)((r, c) := v)) s"
proof -
  have "fst s < 4" "snd s < 13" using assms(2) by (simp_all add: slot_bounds)
  then show ?thesis
    unfolding slotValue_def using setSlot_nth[OF assms(1)] by (cases s) auto
qed

lemma orderValues_setSlot:
  assumes "deckShape d"
  shows "orderValues (setSlot d r c v) = map ((slotValue d)((r, c) := v)) slots"
  unfolding orderValues_def
  by (rule map_cong[OF refl]) (rule slotValue_setSlot[OF assms])

lemma mset_map_upd:
  "distinct xs \<Longrightarrow> x \<in> set xs \<Longrightarrow>
     mset (map (f(x := v)) xs) = add_mset v (mset (map f xs) - {#f x#})"
proof (induction xs)
  case Nil
  then show ?case by simp
next
  case (Cons a xs)
  show ?case
  proof (cases "a = x")
    case True
    then have "x \<notin> set xs" using Cons.prems by simp
    then have eq: "map (f(x := v)) xs = map f xs" by (intro map_cong) auto
    have "mset (map (f(x := v)) (a # xs)) = add_mset v (mset (map (f(x := v)) xs))"
      using True by simp
    also have "\<dots> = add_mset v (mset (map f xs))" by (simp only: eq)
    also have "\<dots> = add_mset v (mset (map f (a # xs)) - {#f x#})" using True by simp
    finally show ?thesis .
  next
    case False
    then have "x \<in> set xs" "distinct xs" using Cons.prems by simp_all
    then have ih: "mset (map (f(x := v)) xs) = add_mset v (mset (map f xs) - {#f x#})"
      by (rule Cons.IH[rotated])
    have mem: "f x \<in># mset (map f xs)" using \<open>x \<in> set xs\<close> by simp
    have "mset (map (f(x := v)) (a # xs)) = add_mset (f a) (mset (map (f(x := v)) xs))"
      using False by simp
    also have "\<dots> = add_mset (f a) (add_mset v (mset (map f xs) - {#f x#}))"
      by (simp only: ih)
    also have "\<dots> = add_mset v (add_mset (f a) (mset (map f xs)) - {#f x#})"
      using mem by simp
    also have "\<dots> = add_mset v (mset (map f (a # xs)) - {#f x#})" by simp
    finally show ?thesis .
  qed
qed

lemma mset_orderValues_setSlot:
  assumes "deckShape d" and "r < 4" and "c < 13"
  shows "mset (orderValues (setSlot d r c v)) =
         add_mset v (mset (orderValues d) - {#d ! r ! c#})"
proof -
  have "(r, c) \<in> set slots" using assms(2,3) by (simp add: set_slots)
  then have "mset (map ((slotValue d)((r, c) := v)) slots) =
      add_mset v (mset (map (slotValue d) slots) - {#slotValue d (r, c)#})"
    using distinct_slots by (intro mset_map_upd)
  then have "mset (orderValues (setSlot d r c v)) =
      add_mset v (mset (orderValues d) - {#slotValue d (r, c)#})"
    unfolding orderValues_setSlot[OF assms(1)] unfolding orderValues_def .
  moreover have "slotValue d (r, c) = d ! r ! c" by (simp add: slotValue_def)
  ultimately show ?thesis by simp
qed

lemma clearRow_nth:
  assumes "deckShape d" and "r' < 4" and "c' < 13"
  shows "fold (\<lambda>c d'. setSlot d' r c 0) cs d ! r' ! c' =
         (if r' = r \<and> c' \<in> set cs then 0 else d ! r' ! c') \<and>
         deckShape (fold (\<lambda>c d'. setSlot d' r c 0) cs d)"
  using assms(1)
proof (induction cs arbitrary: d)
  case Nil
  then show ?case by simp
next
  case (Cons c cs)
  have sh: "deckShape (setSlot d r c 0)" using Cons.prems by (rule deckShape_setSlot)
  show ?case
    using Cons.IH[OF sh] setSlot_nth[OF Cons.prems assms(2,3), of r c 0] by auto
qed

lemma clearDeck_nth:
  assumes "deckShape d" and "r' < 4" and "c' < 13"
  shows "fold (\<lambda>r d. fold (\<lambda>c d'. setSlot d' r c 0) cs d) rs d ! r' ! c' =
         (if r' \<in> set rs \<and> c' \<in> set cs then 0 else d ! r' ! c') \<and>
         deckShape (fold (\<lambda>r d. fold (\<lambda>c d'. setSlot d' r c 0) cs d) rs d)"
  using assms(1)
proof (induction rs arbitrary: d)
  case Nil
  then show ?case by simp
next
  case (Cons r rs)
  note row = clearRow_nth[OF Cons.prems assms(2,3), of r cs]
  show ?case using Cons.IH[of "fold (\<lambda>c d'. setSlot d' r c 0) cs d"] row by auto
qed

lemma deckShape_clearDeck: "deckShape d \<Longrightarrow> deckShape (clearDeck d)"
  unfolding clearDeck_def using clearDeck_nth[of d 0 0] by simp

lemma slotValue_clearDeck:
  assumes "deckShape d" and "s \<in> set slots"
  shows "slotValue (clearDeck d) s = 0"
proof -
  have "fst s < 4" "snd s < 13" using assms(2) by (simp_all add: slot_bounds)
  then show ?thesis
    unfolding slotValue_def clearDeck_def using clearDeck_nth[OF assms(1)] by simp
qed

lemma orderValues_clearDeck:
  assumes "deckShape d"
  shows "mset (orderValues (clearDeck d)) = replicate_mset 52 0"
proof -
  have "orderValues (clearDeck d) = map (\<lambda>s. 0) slots"
    unfolding orderValues_def
    by (rule map_cong[OF refl]) (rule slotValue_clearDeck[OF assms])
  also have "\<dots> = replicate 52 0" by (simp add: map_replicate_const length_slots)
  finally show ?thesis by simp
qed

subsection \<open>The rejection loop and the placing loop\<close>

text \<open>What \<open>pickSlot\<close> returns when it returns.\<close>

lemma pickSlot_Some:
  assumes "pickSlot rnd d k = Some res"
  shows "fst res < 4 \<and> fst (snd res) < 13 \<and> d ! fst res ! fst (snd res) = 0 \<and>
     (even k \<longrightarrow> even (snd (snd res)))"
proof (rule pickSlot.raw_induct[OF _ assms])
  fix pick :: "(nat \<Rightarrow> nat) \<Rightarrow> deck \<Rightarrow> nat \<Rightarrow> (nat \<times> nat \<times> nat) option"
    and rnd deck k res
  assume ih: "\<And>rnd deck k res. pick rnd deck k = Some res \<Longrightarrow>
      fst res < 4 \<and> fst (snd res) < 13 \<and> deck ! fst res ! fst (snd res) = 0 \<and>
      (even k \<longrightarrow> even (snd (snd res)))"
    and body: "(let row = rnd k mod 4; col = rnd (k + 1) mod 13
      in if deck ! row ! col \<noteq> 0 then pick rnd deck (k + 2)
         else Some (row, col, k + 2)) = Some res"
  show "fst res < 4 \<and> fst (snd res) < 13 \<and> deck ! fst res ! fst (snd res) = 0 \<and>
      (even k \<longrightarrow> even (snd (snd res)))"
  proof (cases "deck ! (rnd k mod 4) ! (rnd (k + 1) mod 13) \<noteq> 0")
    case True
    then have "pick rnd deck (k + 2) = Some res" using body by (simp add: Let_def)
    then show ?thesis using ih[of rnd deck "k + 2" res] by simp
  next
    case False
    then have "res = (rnd k mod 4, rnd (k + 1) mod 13, k + 2)"
      using body by (simp add: Let_def)
    then show ?thesis using False by simp
  qed
qed

text \<open>A draw that hits an empty slot ends the loop, at the latest when it is made.\<close>

lemma pickSlot_hits:
  assumes "d ! (rnd (k + 2 * m) mod 4) ! (rnd (k + 2 * m + 1) mod 13) = 0"
  shows "\<exists>res. pickSlot rnd d k = Some res"
  using assms
proof (induction m arbitrary: k)
  case 0
  then show ?case by (subst pickSlot.simps) (simp add: Let_def)
next
  case (Suc m)
  show ?case
  proof (cases "d ! (rnd k mod 4) ! (rnd (k + 1) mod 13) \<noteq> 0")
    case True
    have "d ! (rnd (k + 2 + 2 * m) mod 4) ! (rnd (k + 2 + 2 * m + 1) mod 13) = 0"
      using Suc.prems by (simp add: ac_simps)
    then have "\<exists>res. pickSlot rnd d (k + 2) = Some res" by (rule Suc.IH)
    then show ?thesis using True by (subst pickSlot.simps) (simp add: Let_def)
  next
    case False
    then show ?thesis by (subst pickSlot.simps) (simp add: Let_def)
  qed
qed

lemma placed_step:
  assumes "1 \<le> i" and "i < 53"
    and "M = mset (map int [1..<i]) + replicate_mset (53 - i) (0::int)"
  shows "add_mset (int i) (M - {#0#}) =
         mset (map int [1..<Suc i]) + replicate_mset (53 - Suc i) 0"
proof -
  obtain n where n: "53 - i = Suc n" "53 - Suc i = n"
    using assms(2) by (metis Suc_diff_Suc)
  have "[1..<Suc i] = [1..<i] @ [i]" using assms(1) by simp
  then show ?thesis using assms(3) n by simp
qed

lemma empty_slot:
  assumes "i < 53"
    and "mset (orderValues d) = mset (map int [1..<i]) + replicate_mset (53 - i) 0"
  shows "\<exists>row col. row < 4 \<and> col < 13 \<and> d ! row ! col = 0"
proof -
  obtain n where "53 - i = Suc n" using assms(1) by (metis Suc_diff_Suc)
  then have "0 \<in># mset (orderValues d)" using assms(2) by simp
  then have "0 \<in> set (orderValues d)" by simp
  then obtain s where "s \<in> set slots" "slotValue d s = 0"
    unfolding orderValues_def by auto
  then show ?thesis unfolding slotValue_def slot_bounds by metis
qed

lemma placeOrders_inv:
  assumes "1 \<le> i" and "i \<le> 53" and "deckShape d"
    and "mset (orderValues d) = mset (map int [1..<i]) + replicate_mset (53 - i) 0"
    and "placeOrders rnd [i..<53] d k = Some (d', k')"
  shows "deckInv d'"
  using assms
proof (induction "53 - i" arbitrary: i d k)
  case 0
  then have "i = 53" by simp
  then show ?case using 0 by (simp add: deckInv_def)
next
  case (Suc n)
  then have i: "i < 53" and n: "n = 53 - Suc i" by simp_all
  have upt: "[i..<53] = i # [Suc i..<53]" using i by (simp add: upt_conv_Cons)
  obtain row col k1 where pick: "pickSlot rnd d k = Some (row, col, k1)"
    and rest: "placeOrders rnd [Suc i..<53] (setSlot d row col (int i)) k1 = Some (d', k')"
    using Suc.prems(5) unfolding upt by (auto split: option.splits)
  have slot: "row < 4" "col < 13" "d ! row ! col = 0"
    using pickSlot_Some[OF pick] by simp_all
  have sh: "deckShape (setSlot d row col (int i))"
    using Suc.prems(3) by (rule deckShape_setSlot)
  have "mset (orderValues (setSlot d row col (int i))) =
      add_mset (int i) (mset (orderValues d) - {#0#})"
    using mset_orderValues_setSlot[OF Suc.prems(3) slot(1,2)] slot(3) by simp
  also have "\<dots> = mset (map int [1..<Suc i]) + replicate_mset (53 - Suc i) 0"
    using Suc.prems(1) i Suc.prems(4) by (rule placed_step)
  finally have ms: "mset (orderValues (setSlot d row col (int i))) =
      mset (map int [1..<Suc i]) + replicate_mset (53 - Suc i) 0" .
  show ?case
    by (rule Suc.hyps(1)[OF n _ _ sh ms rest]) (use i in simp_all)
qed

lemma placeOrders_terminates:
  assumes "fairSource rnd" and "1 \<le> i" and "i \<le> 53" and "deckShape d"
    and "mset (orderValues d) = mset (map int [1..<i]) + replicate_mset (53 - i) 0"
    and "even k"
  shows "\<exists>res. placeOrders rnd [i..<53] d k = Some res"
  using assms(2-)
proof (induction "53 - i" arbitrary: i d k)
  case 0
  then have "i = 53" by simp
  then show ?case by simp
next
  case (Suc n)
  then have i: "i < 53" and n: "n = 53 - Suc i" by simp_all
  have upt: "[i..<53] = i # [Suc i..<53]" using i by (simp add: upt_conv_Cons)
  obtain row col where empty: "row < 4" "col < 13" "d ! row ! col = 0"
    using empty_slot[OF i Suc.prems(4)] by blast
  obtain j where j: "k div 2 \<le> j" "rnd (2 * j) mod 4 = row" "rnd (2 * j + 1) mod 13 = col"
    using assms(1) empty(1,2) unfolding fairSource_def by blast
  have "k + 2 * (j - k div 2) = 2 * j" using j(1) Suc.prems(5) by auto
  then have "d ! (rnd (k + 2 * (j - k div 2)) mod 4) ! (rnd (k + 2 * (j - k div 2) + 1) mod 13) = 0"
    using j(2,3) empty(3) by simp
  then obtain res where pick: "pickSlot rnd d k = Some res"
    using pickSlot_hits by blast
  obtain row' col' k1 where res: "res = (row', col', k1)" by (cases res) auto
  have slot: "row' < 4" "col' < 13" "d ! row' ! col' = 0" "even k1"
    using pickSlot_Some[OF pick] Suc.prems(5) by (simp_all add: res)
  have sh: "deckShape (setSlot d row' col' (int i))"
    using Suc.prems(3) by (rule deckShape_setSlot)
  have "mset (orderValues (setSlot d row' col' (int i))) =
      add_mset (int i) (mset (orderValues d) - {#0#})"
    using mset_orderValues_setSlot[OF Suc.prems(3) slot(1,2)] slot(3) by simp
  also have "\<dots> = mset (map int [1..<Suc i]) + replicate_mset (53 - Suc i) 0"
    using Suc.prems(1) i Suc.prems(4) by (rule placed_step)
  finally have ms: "mset (orderValues (setSlot d row' col' (int i))) =
      mset (map int [1..<Suc i]) + replicate_mset (53 - Suc i) 0" .
  have "\<exists>res. placeOrders rnd [Suc i..<53] (setSlot d row' col' (int i)) k1 = Some res"
    by (rule Suc.hyps(1)[OF n _ _ sh ms slot(4)]) (use i in simp_all)
  then show ?case unfolding upt using pick res by simp
qed

lemma cleared_placed:
  assumes "deckShape d"
  shows "mset (orderValues (clearDeck d)) = mset (map int [1..<1]) + replicate_mset (53 - 1) 0"
  using orderValues_clearDeck[OF assms] by simp

lemma shuffleDeck_inv:
  assumes "deckShape d" and "shuffleDeck rnd d = Some (d', k')"
  shows "deckInv d'"
  using placeOrders_inv[OF _ _ deckShape_clearDeck[OF assms(1)] cleared_placed[OF assms(1)]]
    assms(2) unfolding shuffleDeck_def by simp

lemma shuffleDeck_terminates:
  assumes "fairSource rnd" and "deckShape d"
  shows "\<exists>res. shuffleDeck rnd d = Some res"
  using placeOrders_terminates[OF assms(1) _ _ deckShape_clearDeck[OF assms(2)]
      cleared_placed[OF assms(2)], of 0]
  unfolding shuffleDeck_def by simp

subsection \<open>The loops of the deal as one list of writes\<close>

lemma bindE_Inr [simp]: "bindE (Inr x) f = f x"
  by (simp add: bindE_def)

lemma bindE_Inl [simp]: "bindE (Inl e) f = Inl e"
  by (simp add: bindE_def)

lemma bindE_assoc: "bindE (bindE m f) g = bindE m (\<lambda>x. bindE (f x) g)"
  by (cases m) simp_all

lemma forE_append: "forE (xs @ ys) body s = bindE (forE xs body s) (forE ys body)"
proof (induction xs arbitrary: s)
  case Nil
  then show ?case by simp
next
  case (Cons x xs)
  have "(\<lambda>t. forE (xs @ ys) body t) = (\<lambda>t. bindE (forE xs body t) (forE ys body))"
    by (rule ext) (rule Cons.IH)
  then show ?case by (simp add: bindE_assoc)
qed

lemma forE_filter:
  "forE xs (\<lambda>x s. if P x then g x s else Inr s) s = forE (filter P xs) g s"
proof (induction xs arbitrary: s)
  case Nil
  then show ?case by simp
next
  case (Cons x xs)
  have "forE xs (\<lambda>x s. if P x then g x s else Inr s) = forE (filter P xs) g"
    by (rule ext) (rule Cons.IH)
  then show ?case by simp
qed

lemma forE_map: "forE (map f ys) body s = forE ys (\<lambda>y. body (f y)) s"
proof (induction ys arbitrary: s)
  case Nil
  then show ?case by simp
next
  case (Cons y ys)
  have "forE (map f ys) body = forE ys (\<lambda>y. body (f y))"
    by (rule ext) (rule Cons.IH)
  then show ?case by simp
qed

lemma forE_nested:
  "forE xs (\<lambda>x. forE (g x) (body x)) s =
   forE (concat (map (\<lambda>x. map (Pair x) (g x)) xs)) (\<lambda>w. body (fst w) (snd w)) s"
proof (induction xs arbitrary: s)
  case Nil
  then show ?case by simp
next
  case (Cons x xs)
  have ih: "forE xs (\<lambda>x. forE (g x) (body x)) =
      forE (concat (map (\<lambda>x. map (Pair x) (g x)) xs)) (\<lambda>w. body (fst w) (snd w))"
    by (rule ext) (rule Cons.IH)
  have "forE (map (Pair x) (g x)) (\<lambda>w. body (fst w) (snd w)) s = forE (g x) (body x) s"
    by (simp add: forE_map)
  then show ?case by (simp add: forE_append ih)
qed

lemma forE_cong:
  "(\<And>x s. x \<in> set xs \<Longrightarrow> f x s = g x s) \<Longrightarrow> forE xs f s = forE xs g s"
proof (induction xs arbitrary: s)
  case Nil
  then show ?case by simp
next
  case (Cons x xs)
  have "forE xs f = forE xs g" by (rule ext) (rule Cons.IH, simp add: Cons.prems)
  then show ?case using Cons.prems[of x s] by simp
qed

lemma filter_product:
  "concat (map (\<lambda>p. map (Pair p) (filter (\<lambda>q. P p q) qs)) ps) =
   filter (\<lambda>s. P (fst s) (snd s)) (List.product ps qs)"
  by (induction ps) (simp_all add: filter_map comp_def)

lemma dealOrder_filter:
  "dealOrder d w i h =
   forE (filter (\<lambda>s. slotValue d s = w) slots) (\<lambda>s. dealCard i (fst s) (snd s)) h"
proof -
  have "dealOrder d w i h =
      forE [0..<4] (\<lambda>p. forE (filter (\<lambda>q. d ! p ! q = w) [0..<13]) (dealCard i p)) h"
    unfolding dealOrder_def by (rule forE_cong) (rule forE_filter)
  also have "\<dots> = forE (concat (map (\<lambda>p. map (Pair p) (filter (\<lambda>q. d ! p ! q = w) [0..<13])) [0..<4]))
      (\<lambda>s. dealCard i (fst s) (snd s)) h"
    by (rule forE_nested)
  also have "concat (map (\<lambda>p. map (Pair p) (filter (\<lambda>q. d ! p ! q = w) [0..<13])) [0..<4]) =
      filter (\<lambda>s. slotValue d s = w) slots"
    unfolding slots_def slotValue_def by (rule filter_product)
  finally show ?thesis .
qed

lemma deal_writes_forE:
  "dealFiveCardHandFromOrderRange d S h =
   forE (dealWrites d S) (\<lambda>w. dealCard (fst w) (fst (snd w)) (snd (snd w))) h"
proof -
  have "dealFiveCardHandFromOrderRange d S h =
      forE [0..<5] (\<lambda>i. forE (filter (\<lambda>s. slotValue d s = S + int i) slots)
        (\<lambda>s. dealCard i (fst s) (snd s))) h"
    unfolding dealFiveCardHandFromOrderRange_def by (rule forE_cong) (rule dealOrder_filter)
  also have "\<dots> = forE (dealWrites d S) (\<lambda>w. dealCard (fst w) (fst (snd w)) (snd (snd w))) h"
    unfolding dealWrites_def by (rule forE_nested)
  finally show ?thesis .
qed

subsection \<open>The effect of the writes\<close>

lemma rank_of_face: "q < 13 \<Longrightarrow> 2 \<le> rankValueFromFaceIndex (int q) \<and> rankValueFromFaceIndex (int q) \<le> 14"
  by (simp add: rankValueFromFaceIndex_def)

lemma cardRank_range: "c \<in> set slots \<Longrightarrow> 2 \<le> cardRank c \<and> cardRank c \<le> 14"
  unfolding cardRank_def slot_bounds by (simp add: rank_of_face)

lemma dealCard_put:
  assumes "handShape h" and "i < 5" and "p < 4" and "q < 13"
  shows "dealCard i p q h = Inr (putCard (i, p, q) h)"
proof -
  note r = rank_of_face[OF assms(4)]
  have "store (outHandSuite h) (int i) (int p) = Inr ((outHandSuite h)[i := int p])"
    using assms(1,2) by (simp add: store_def handShape_def)
  moreover have "store (outHandRank h) (int i) (rankValueFromFaceIndex (int q)) =
      Inr ((outHandRank h)[i := rankValueFromFaceIndex (int q)])"
    using assms(1,2) by (simp add: store_def handShape_def)
  moreover have "increment (outRankCount h) (rankValueFromFaceIndex (int q)) =
      Inr ((outRankCount h)[nat (rankValueFromFaceIndex (int q)) :=
        outRankCount h ! nat (rankValueFromFaceIndex (int q)) + 1])"
  proof -
    have "0 \<le> rankValueFromFaceIndex (int q)" "nat (rankValueFromFaceIndex (int q)) < 15"
      using r by linarith+
    then show ?thesis using assms(1) by (simp add: increment_def handShape_def)
  qed
  moreover have "increment (outSuitCount h) (int p) =
      Inr ((outSuitCount h)[p := outSuitCount h ! p + 1])"
    using assms(1,3) by (simp add: increment_def handShape_def)
  ultimately show ?thesis
    by (simp add: dealCard_def putCard_def cardRank_def Let_def)
qed

lemma handShape_putCard: "handShape h \<Longrightarrow> handShape (putCard w h)"
  by (simp add: handShape_def putCard_def)

lemma handShape_fold: "handShape h \<Longrightarrow> handShape (fold putCard ws h)"
  by (induction ws arbitrary: h) (simp_all add: handShape_putCard)

lemma forE_put:
  assumes "handShape h" and "\<forall>w\<in>set ws. fst w < 5 \<and> snd w \<in> set slots"
  shows "forE ws (\<lambda>w. dealCard (fst w) (fst (snd w)) (snd (snd w))) h = Inr (fold putCard ws h)"
  using assms
proof (induction ws arbitrary: h)
  case Nil
  then show ?case by simp
next
  case (Cons w ws)
  have w: "fst w < 5" "fst (snd w) < 4" "snd (snd w) < 13"
    using Cons.prems(2) by (simp_all add: slot_bounds)
  have "dealCard (fst w) (fst (snd w)) (snd (snd w)) h = Inr (putCard w h)"
    using dealCard_put[OF Cons.prems(1) w] by simp
  moreover have "forE ws (\<lambda>w. dealCard (fst w) (fst (snd w)) (snd (snd w))) (putCard w h) =
      Inr (fold putCard ws (putCard w h))"
    using Cons.prems by (intro Cons.IH handShape_putCard) simp_all
  ultimately show ?case by simp
qed

lemma dealWrites_mem:
  "w \<in> set (dealWrites d S) \<longleftrightarrow>
     fst w < 5 \<and> snd w \<in> set slots \<and> slotValue d (snd w) = S + int (fst w)"
  unfolding dealWrites_def by (cases w) auto

lemma deal_fold:
  assumes "handShape h"
  shows "dealFiveCardHandFromOrderRange d S h = Inr (fold putCard (dealWrites d S) h)"
  unfolding deal_writes_forE
  by (rule forE_put[OF assms]) (simp add: dealWrites_mem)

lemma fold_rankCount:
  assumes "handShape h" and "\<forall>w\<in>set ws. snd w \<in> set slots" and "r < 15"
  shows "outRankCount (fold putCard ws h) ! r =
         outRankCount h ! r + int (length (filter (\<lambda>w. cardRank (snd w) = int r) ws))"
  using assms(1,2)
proof (induction ws arbitrary: h)
  case Nil
  then show ?case by simp
next
  case (Cons w ws)
  have rng: "2 \<le> cardRank (snd w)" "cardRank (snd w) \<le> 14"
    using Cons.prems(2) cardRank_range[of "snd w"] by simp_all
  have len: "length (outRankCount h) = 15" using Cons.prems(1) by (simp add: handShape_def)
  have "outRankCount (putCard w h) ! r =
      outRankCount h ! r + (if cardRank (snd w) = int r then 1 else 0)"
    using rng len assms(3) by (auto simp: putCard_def nth_list_update)
  moreover have "outRankCount (fold putCard ws (putCard w h)) ! r =
      outRankCount (putCard w h) ! r + int (length (filter (\<lambda>w. cardRank (snd w) = int r) ws))"
    using Cons.prems by (intro Cons.IH handShape_putCard) simp_all
  ultimately show ?case by simp
qed

lemma fold_suitCount:
  assumes "handShape h" and "\<forall>w\<in>set ws. snd w \<in> set slots" and "s < 4"
  shows "outSuitCount (fold putCard ws h) ! s =
         outSuitCount h ! s + int (length (filter (\<lambda>w. fst (snd w) = s) ws))"
  using assms(1,2)
proof (induction ws arbitrary: h)
  case Nil
  then show ?case by simp
next
  case (Cons w ws)
  have rng: "fst (snd w) < 4" using Cons.prems(2) by (simp add: slot_bounds)
  have len: "length (outSuitCount h) = 4" using Cons.prems(1) by (simp add: handShape_def)
  have "outSuitCount (putCard w h) ! s =
      outSuitCount h ! s + (if fst (snd w) = s then 1 else 0)"
    using rng len assms(3) by (auto simp: putCard_def nth_list_update)
  moreover have "outSuitCount (fold putCard ws (putCard w h)) ! s =
      outSuitCount (putCard w h) ! s + int (length (filter (\<lambda>w. fst (snd w) = s) ws))"
    using Cons.prems by (intro Cons.IH handShape_putCard) simp_all
  ultimately show ?case by simp
qed

lemma fold_hand_frame:
  assumes "j \<notin> fst ` set ws"
  shows "outHandSuite (fold putCard ws h) ! j = outHandSuite h ! j \<and>
         outHandRank (fold putCard ws h) ! j = outHandRank h ! j"
  using assms
proof (induction ws arbitrary: h)
  case Nil
  then show ?case by simp
next
  case (Cons w ws)
  have "fst w \<noteq> j" using Cons.prems by auto
  then have "outHandSuite (putCard w h) ! j = outHandSuite h ! j"
    "outHandRank (putCard w h) ! j = outHandRank h ! j"
    by (simp_all add: putCard_def)
  moreover have "j \<notin> fst ` set ws" using Cons.prems by auto
  ultimately show ?case using Cons.IH[of "putCard w h"] by simp
qed


subsection \<open>Slots of a shuffled deck\<close>

lemma count_map_filter: "count (mset (map f xs)) v = length (filter (\<lambda>x. f x = v) xs)"
  by (induction xs) auto

lemma count_orders: "count (mset (map int [1..<53])) v = (if 1 \<le> v \<and> v \<le> 52 then 1 else 0)"
proof -
  have d: "distinct (map int [1..<53])" by (simp add: distinct_map)
  have "v \<in> set (map int [1..<53]) \<longleftrightarrow> 1 \<le> v \<and> v \<le> 52"
  proof
    assume "v \<in> set (map int [1..<53])"
    then obtain n where "v = int n" "1 \<le> n" "n < 53" by auto
    then show "1 \<le> v \<and> v \<le> 52" by simp
  next
    assume v: "1 \<le> v \<and> v \<le> 52"
    then have "1 \<le> nat v" and "nat v < 53" by linarith+
    then have "nat v \<in> {1..<53}" by simp
    then have "int (nat v) \<in> int ` {1..<53}" by (rule imageI)
    moreover have "int (nat v) = v" using v by simp
    ultimately show "v \<in> set (map int [1..<53])" by simp
  qed
  then show ?thesis using d by (simp add: distinct_count_atmost_1)
qed

lemma deckInv_count:
  assumes "deckInv d"
  shows "length (filter (\<lambda>s. slotValue d s = v) slots) = (if 1 \<le> v \<and> v \<le> 52 then 1 else 0)"
proof -
  have "int (length (filter (\<lambda>s. slotValue d s = v) slots)) = int (count (mset (orderValues d)) v)"
    unfolding orderValues_def by (simp only: count_map_filter)
  also have "\<dots> = int (count (mset (map int [1..<53])) v)"
    using assms by (simp only: deckInv_def)
  also have "\<dots> = int (if 1 \<le> v \<and> v \<le> 52 then 1 else 0)"
    by (simp only: count_orders)
  finally show ?thesis by (simp only: of_nat_eq_iff)
qed

lemma find_filter: "find P xs = (case filter P xs of [] \<Rightarrow> None | x # _ \<Rightarrow> Some x)"
  by (induction xs) auto

lemma deckInv_found:
  assumes "deckInv d" and "1 \<le> v" and "v \<le> 52"
  shows "filter (\<lambda>s. slotValue d s = v) slots = [the (slotOf d v)] \<and>
         the (slotOf d v) \<in> set slots \<and> slotValue d (the (slotOf d v)) = v"
proof -
  have "length (filter (\<lambda>s. slotValue d s = v) slots) = 1"
    using deckInv_count[OF assms(1), of v] assms(2,3) by simp
  then obtain c where c: "filter (\<lambda>s. slotValue d s = v) slots = [c]"
    by (auto simp: length_Suc_conv)
  then have "slotOf d v = Some c" by (simp add: slotOf_def find_filter)
  moreover have "c \<in> set slots \<and> slotValue d c = v"
  proof -
    have "c \<in> set (filter (\<lambda>s. slotValue d s = v) slots)" by (subst c) simp
    then show ?thesis by simp
  qed
  ultimately show ?thesis using c by simp
qed

lemma deckInv_missing:
  assumes "deckInv d" and "\<not> (1 \<le> v \<and> v \<le> 52)"
  shows "filter (\<lambda>s. slotValue d s = v) slots = []"
  using deckInv_count[OF assms(1), of v] assms(2) by simp

lemma deckInv_unique:
  assumes "deckInv d" and "1 \<le> v" and "v \<le> 52"
  shows "\<exists>!s. s \<in> set slots \<and> slotValue d s = v"
proof -
  note f = deckInv_found[OF assms]
  have "set (filter (\<lambda>s. slotValue d s = v) slots) = {the (slotOf d v)}"
    using f by simp
  then have "\<forall>s. s \<in> set slots \<and> slotValue d s = v \<longleftrightarrow> s = the (slotOf d v)"
    by auto
  then show ?thesis by (intro ex1I[of _ "the (slotOf d v)"]) blast+
qed

lemma deckInv_range:
  assumes "deckInv d" and "s \<in> set slots"
  shows "1 \<le> slotValue d s \<and> slotValue d s \<le> 52"
proof (rule ccontr)
  assume "\<not> (1 \<le> slotValue d s \<and> slotValue d s \<le> 52)"
  then have "filter (\<lambda>t. slotValue d t = slotValue d s) slots = []"
    by (rule deckInv_missing[OF assms(1)])
  then have "\<forall>t\<in>set slots. slotValue d t \<noteq> slotValue d s"
    by (simp only: filter_empty_conv)
  then show False using assms(2) by blast
qed

lemma dealWrites_inv:
  assumes "deckInv d" and "1 \<le> S" and "S \<le> 48"
  shows "dealWrites d S = map (\<lambda>i. (i, the (slotOf d (S + int i)))) [0..<5]"
proof -
  have "map (\<lambda>i. map (Pair i) (filter (\<lambda>s. slotValue d s = S + int i) slots)) [0..<5] =
      map (\<lambda>i. [(i, the (slotOf d (S + int i)))]) [0..<5]"
  proof (rule map_cong[OF refl])
    fix i assume "i \<in> set [0..<5]"
    then have "1 \<le> S + int i" "S + int i \<le> 52" using assms(2,3) by auto
    then show "map (Pair i) (filter (\<lambda>s. slotValue d s = S + int i) slots) =
        [(i, the (slotOf d (S + int i)))]"
      using deckInv_found[OF assms(1)] by simp
  qed
  then show ?thesis unfolding dealWrites_def by (simp only: concat_map_singleton)
qed

lemma handCards_writes:
  assumes "deckInv d" and "1 \<le> S" and "S \<le> 48"
  shows "map snd (dealWrites d S) = handCards d S" and "map fst (dealWrites d S) = [0..<5]"
  unfolding dealWrites_inv[OF assms] handCards_def by (simp_all add: comp_def)


lemma forE_store_zero:
  "n \<le> length xs \<Longrightarrow>
     forE [0..<n] (\<lambda>i ys. store ys (int i) 0) xs = Inr (replicate n 0 @ drop n xs)"
proof (induction n)
  case 0
  then show ?case by simp
next
  case (Suc n)
  then have n: "n < length xs" by simp
  have ih: "forE [0..<n] (\<lambda>i ys. store ys (int i) 0) xs = Inr (replicate n 0 @ drop n xs)"
    using Suc by simp
  have "store (replicate n 0 @ drop n xs) (int n) 0 =
      Inr ((replicate n 0 @ drop n xs)[n := 0])"
    using n by (simp add: store_def)
  also have "(replicate n 0 @ drop n xs)[n := 0] = replicate n 0 @ (drop n xs)[0 := 0]"
    by (simp add: list_update_append)
  also have "(drop n xs)[0 := 0] = 0 # drop (Suc n) xs"
    using n by (simp add: Cons_nth_drop_Suc[symmetric])
  also have "replicate n 0 @ 0 # drop (Suc n) xs = replicate (Suc n) 0 @ drop (Suc n) xs"
    by (simp add: replicate_append_same)
  finally have "store (replicate n 0 @ drop n xs) (int n) 0 =
      Inr (replicate (Suc n) 0 @ drop (Suc n) xs)" .
  then show ?case by (simp add: forE_append ih)
qed

lemma clearCountArrays_eq:
  assumes "handShape h"
  shows "clearCountArrays h = Inr (h\<lparr>outRankCount := replicate 15 0, outSuitCount := replicate 4 0\<rparr>)"
proof -
  have "forE [0..<15] (\<lambda>i ys. store ys (int i) 0) (outRankCount h) = Inr (replicate 15 0)"
    using forE_store_zero[of 15 "outRankCount h"] assms by (simp add: handShape_def)
  moreover have "forE [0..<4] (\<lambda>i ys. store ys (int i) 0) (outSuitCount h) = Inr (replicate 4 0)"
    using forE_store_zero[of 4 "outSuitCount h"] assms by (simp add: handShape_def)
  ultimately show ?thesis by (simp add: clearCountArrays_def)
qed

subsection \<open>The hand dealt from a shuffled deck\<close>

lemma fold_hand_entry:
  assumes "distinct (map fst ws)" and "w \<in> set ws" and "fst w < 5" and "handShape h"
  shows "outHandSuite (fold putCard ws h) ! fst w = int (fst (snd w)) \<and>
         outHandRank (fold putCard ws h) ! fst w = cardRank (snd w)"
  using assms(1,2,4)
proof (induction ws arbitrary: h)
  case Nil
  then show ?case by simp
next
  case (Cons a ws)
  show ?case
  proof (cases "w = a")
    case True
    have "fst a \<notin> fst ` set ws" using Cons.prems(1) by simp
    then have "outHandSuite (fold putCard ws (putCard a h)) ! fst a = outHandSuite (putCard a h) ! fst a"
      "outHandRank (fold putCard ws (putCard a h)) ! fst a = outHandRank (putCard a h) ! fst a"
      using fold_hand_frame[of "fst a" ws "putCard a h"] by simp_all
    moreover have "outHandSuite (putCard a h) ! fst a = int (fst (snd a))"
      "outHandRank (putCard a h) ! fst a = cardRank (snd a)"
      using Cons.prems(3) assms(3) True by (simp_all add: putCard_def handShape_def)
    ultimately show ?thesis using True by simp
  next
    case False
    then have "w \<in> set ws" using Cons.prems(2) by simp
    moreover have "distinct (map fst ws)" using Cons.prems(1) by simp
    moreover have "handShape (putCard a h)" using Cons.prems(3) by (rule handShape_putCard)
    ultimately show ?thesis using Cons.IH[of "putCard a h"] by simp
  qed
qed

lemma indicator_sum:
  "distinct rs \<Longrightarrow> x \<in> set rs \<Longrightarrow>
     sum_list (map (\<lambda>r. if x = r then 1 else 0) rs) = (1::int)"
proof (induction rs)
  case Nil
  then show ?case by simp
next
  case (Cons r rs)
  show ?case
  proof (cases "x = r")
    case True
    then have "\<forall>y\<in>set rs. x \<noteq> y" using Cons.prems(1) by auto
    then have "map (\<lambda>r. if x = r then 1 else 0) rs = map (\<lambda>r. 0::int) rs"
      by (intro map_cong) auto
    then have "sum_list (map (\<lambda>r. if x = r then 1 else 0) rs) = (0::int)"
      by (simp only: sum_list_0)
    then show ?thesis using True by simp
  next
    case False
    then have "x \<in> set rs" "distinct rs" using Cons.prems by simp_all
    then have "sum_list (map (\<lambda>r. if x = r then 1 else 0) rs) = (1::int)"
      by (rule Cons.IH[rotated])
    then show ?thesis using False by simp
  qed
qed

lemma count_partition:
  assumes "distinct rs" and "\<forall>c\<in>set cs. g c \<in> set rs"
  shows "sum_list (map (\<lambda>r. int (length (filter (\<lambda>c. g c = r) cs))) rs) = int (length cs)"
  using assms(2)
proof (induction cs)
  case Nil
  then show ?case by (simp add: sum_list_0)
next
  case (Cons c cs)
  have "g c \<in> set rs" using Cons.prems by simp
  then have one: "sum_list (map (\<lambda>r. if g c = r then 1 else 0) rs) = (1::int)"
    using assms(1) by (intro indicator_sum)
  have ih: "sum_list (map (\<lambda>r. int (length (filter (\<lambda>c. g c = r) cs))) rs) = int (length cs)"
    using Cons by simp
  have "map (\<lambda>r. int (length (filter (\<lambda>c. g c = r) (c # cs)))) rs =
      map (\<lambda>r. (if g c = r then 1 else 0) + int (length (filter (\<lambda>c. g c = r) cs))) rs"
    by (rule map_cong[OF refl]) simp
  then have "sum_list (map (\<lambda>r. int (length (filter (\<lambda>c. g c = r) (c # cs)))) rs) =
      sum_list (map (\<lambda>r. (if g c = r then 1 else 0) + int (length (filter (\<lambda>c. g c = r) cs))) rs)"
    by (rule arg_cong)
  also have "\<dots> = sum_list (map (\<lambda>r. if g c = r then 1 else 0) rs) +
      sum_list (map (\<lambda>r. int (length (filter (\<lambda>c. g c = r) cs))) rs)"
    by (rule sum_list_addf)
  also have "\<dots> = 1 + int (length cs)" by (simp only: one ih)
  finally show ?case by simp
qed

lemma rank_counts_sum:
  assumes "\<forall>c\<in>set cs. c \<in> set slots"
  shows "sum_list (map (\<lambda>r. int (length (filter (\<lambda>c. cardRank c = int r) cs))) [2..<15]) =
         int (length cs)"
proof -
  have conv: "\<And>c r. c \<in> set cs \<Longrightarrow> (cardRank c = int r) = (nat (cardRank c) = r)"
    using assms cardRank_range by force
  have "\<And>r. filter (\<lambda>c. cardRank c = int r) cs = filter (\<lambda>c. nat (cardRank c) = r) cs"
    by (rule filter_cong[OF refl]) (rule conv)
  moreover have "\<forall>c\<in>set cs. nat (cardRank c) \<in> set [2..<15]"
  proof
    fix c assume "c \<in> set cs"
    then have "2 \<le> cardRank c \<and> cardRank c \<le> 14" using assms cardRank_range by blast
    then have "2 \<le> nat (cardRank c)" "nat (cardRank c) < 15" by linarith+
    then show "nat (cardRank c) \<in> set [2..<15]" by simp
  qed
  ultimately show ?thesis
    using count_partition[of "[2..<15]" cs "\<lambda>c. nat (cardRank c)"] by simp
qed

lemma suit_counts_sum:
  assumes "\<forall>c\<in>set cs. c \<in> set slots"
  shows "sum_list (map (\<lambda>s. int (length (filter (\<lambda>c. fst c = s) cs))) [0..<4]) =
         int (length cs)"
proof -
  have "\<forall>c\<in>set cs. fst c \<in> set [0..<4]" using assms by (simp add: slot_bounds)
  then show ?thesis using count_partition[of "[0..<4]" cs fst] by simp
qed

text \<open>The deal on a shuffled deck, for a start order in 1..48.\<close>

lemma deal_on_shuffled:
  assumes "deckInv d" and "handShape h" and "1 \<le> S" and "S \<le> 48"
  shows "outHandSuite (fold putCard (dealWrites d S) h) = map (\<lambda>c. int (fst c)) (handCards d S)"
    and "outHandRank (fold putCard (dealWrites d S) h) = map cardRank (handCards d S)"
    and "r < 15 \<Longrightarrow> outRankCount (fold putCard (dealWrites d S) h) ! r =
      outRankCount h ! r + int (length (filter (\<lambda>c. cardRank c = int r) (handCards d S)))"
    and "s < 4 \<Longrightarrow> outSuitCount (fold putCard (dealWrites d S) h) ! s =
      outSuitCount h ! s + int (length (filter (\<lambda>c. fst c = s) (handCards d S)))"
proof -
  let ?ws = "dealWrites d S" and ?h' = "fold putCard (dealWrites d S) h"
  note ws = dealWrites_inv[OF assms(1,3,4)]
  note cards = handCards_writes[OF assms(1,3,4)]
  have valid: "\<forall>w\<in>set ?ws. snd w \<in> set slots" by (simp add: dealWrites_mem)
  have sh: "handShape ?h'" using assms(2) by (rule handShape_fold)
  have dist: "distinct (map fst ?ws)" by (simp add: cards(2))
  have entry: "outHandSuite ?h' ! i = int (fst (handCards d S ! i)) \<and>
      outHandRank ?h' ! i = cardRank (handCards d S ! i)" if "i < 5" for i
  proof -
    have mem: "(i, the (slotOf d (S + int i))) \<in> set ?ws" using that unfolding ws by simp
    have "handCards d S ! i = the (slotOf d (S + int i))" using that by (simp add: handCards_def)
    then show ?thesis
      using fold_hand_entry[OF dist mem _ assms(2)] that by simp
  qed
  have len: "length (handCards d S) = 5" by (simp add: handCards_def)
  show "outHandSuite ?h' = map (\<lambda>c. int (fst c)) (handCards d S)"
    using sh len entry by (intro nth_equalityI) (simp_all add: handShape_def)
  show "outHandRank ?h' = map cardRank (handCards d S)"
    using sh len entry by (intro nth_equalityI) (simp_all add: handShape_def)
  show "outRankCount ?h' ! r =
      outRankCount h ! r + int (length (filter (\<lambda>c. cardRank c = int r) (handCards d S)))"
    if "r < 15"
  proof -
    have "length (filter (\<lambda>w. cardRank (snd w) = int r) ?ws) =
        length (filter (\<lambda>c. cardRank c = int r) (map snd ?ws))"
      by (simp add: filter_map comp_def)
    then show ?thesis using fold_rankCount[OF assms(2) valid that] by (simp only: cards(1))
  qed
  show "outSuitCount ?h' ! s =
      outSuitCount h ! s + int (length (filter (\<lambda>c. fst c = s) (handCards d S)))"
    if "s < 4"
  proof -
    have "length (filter (\<lambda>w. fst (snd w) = s) ?ws) =
        length (filter (\<lambda>c. fst c = s) (map snd ?ws))"
      by (simp add: filter_map comp_def)
    then show ?thesis using fold_suitCount[OF assms(2) valid that] by (simp only: cards(1))
  qed
qed

lemma specHand_sel:
  "outHandSuite (specHand d S) = map (\<lambda>c. int (fst c)) (handCards d S)"
  "outHandRank (specHand d S) = map cardRank (handCards d S)"
  "r < 15 \<Longrightarrow> outRankCount (specHand d S) ! r =
     int (length (filter (\<lambda>c. cardRank c = int r) (handCards d S)))"
  "s < 4 \<Longrightarrow> outSuitCount (specHand d S) ! s =
     int (length (filter (\<lambda>c. fst c = s) (handCards d S)))"
  "length (outRankCount (specHand d S)) = 15"
  "length (outSuitCount (specHand d S)) = 4"
  by (simp_all add: specHand_def Let_def)

lemma deal_cleared_spec:
  assumes "deckInv d" and "handShape h" and "1 \<le> S" and "S \<le> 48"
    and "outRankCount h = replicate 15 0" and "outSuitCount h = replicate 4 0"
  shows "fold putCard (dealWrites d S) h = specHand d S"
proof (rule hand.equality)
  note d = deal_on_shuffled[OF assms(1-4)]
  have sh: "handShape (fold putCard (dealWrites d S) h)" using assms(2) by (rule handShape_fold)
  show "outHandSuite (fold putCard (dealWrites d S) h) = outHandSuite (specHand d S)"
    by (simp only: d(1) specHand_sel(1))
  show "outHandRank (fold putCard (dealWrites d S) h) = outHandRank (specHand d S)"
    by (simp only: d(2) specHand_sel(2))
  show "outRankCount (fold putCard (dealWrites d S) h) = outRankCount (specHand d S)"
  proof (rule nth_equalityI)
    show "length (outRankCount (fold putCard (dealWrites d S) h)) = length (outRankCount (specHand d S))"
      using sh by (simp add: handShape_def specHand_sel(5))
    fix r assume "r < length (outRankCount (fold putCard (dealWrites d S) h))"
    then have r: "r < 15" using sh by (simp add: handShape_def)
    show "outRankCount (fold putCard (dealWrites d S) h) ! r = outRankCount (specHand d S) ! r"
      using d(3)[OF r] specHand_sel(3)[OF r] r assms(5) by simp
  qed
  show "outSuitCount (fold putCard (dealWrites d S) h) = outSuitCount (specHand d S)"
  proof (rule nth_equalityI)
    show "length (outSuitCount (fold putCard (dealWrites d S) h)) = length (outSuitCount (specHand d S))"
      using sh by (simp add: handShape_def specHand_sel(6))
    fix s assume "s < length (outSuitCount (fold putCard (dealWrites d S) h))"
    then have s: "s < 4" using sh by (simp add: handShape_def)
    show "outSuitCount (fold putCard (dealWrites d S) h) ! s = outSuitCount (specHand d S) ! s"
      using d(4)[OF s] specHand_sel(4)[OF s] s assms(6) by simp
  qed
  show "hand.more (fold putCard (dealWrites d S) h) = hand.more (specHand d S)" by simp
qed

lemma clearThenDeal_spec:
  assumes "deckInv d" and "handShape h" and "1 \<le> S" and "S \<le> 48"
  shows "clearThenDeal d S h = Inr (specHand d S)"
proof -
  let ?c = "h\<lparr>outRankCount := replicate 15 0, outSuitCount := replicate 4 0\<rparr>"
  have sh: "handShape ?c" using assms(2) by (simp add: handShape_def)
  have "clearThenDeal d S h = dealFiveCardHandFromOrderRange d S ?c"
    by (simp add: clearThenDeal_def clearCountArrays_eq[OF assms(2)])
  also have "\<dots> = Inr (fold putCard (dealWrites d S) ?c)" using sh by (rule deal_fold)
  also have "fold putCard (dealWrites d S) ?c = specHand d S"
    using assms(1) sh assms(3,4) by (rule deal_cleared_spec) simp_all
  finally show ?thesis .
qed

lemma specHand_tables:
  assumes "deckInv d" and "1 \<le> S" and "S \<le> 48"
  shows "sum_list (map ((!) (outRankCount (specHand d S))) [2..<15]) = 5"
    and "sum_list (map ((!) (outSuitCount (specHand d S))) [0..<4]) = 5"
    and "rankTable (outRankCount (specHand d S))"
    and "suitTable (outSuitCount (specHand d S))"
proof -
  have cards: "\<forall>c\<in>set (handCards d S). c \<in> set slots"
  proof
    fix c assume "c \<in> set (handCards d S)"
    then obtain i where i: "i < 5" and c: "c = the (slotOf d (S + int i))"
      unfolding handCards_def by auto
    have "1 \<le> S + int i" "S + int i \<le> 52" using assms(2,3) i by auto
    then show "c \<in> set slots" using deckInv_found[OF assms(1)] c by simp
  qed
  have len: "int (length (handCards d S)) = 5" by (simp add: handCards_def)
  have "map ((!) (outRankCount (specHand d S))) [2..<15] =
      map (\<lambda>r. int (length (filter (\<lambda>c. cardRank c = int r) (handCards d S)))) [2..<15]"
    by (rule map_cong[OF refl]) (simp add: specHand_sel(3))
  then have "sum_list (map ((!) (outRankCount (specHand d S))) [2..<15]) =
      int (length (handCards d S))"
    by (simp only: rank_counts_sum[OF cards])
  then show r5: "sum_list (map ((!) (outRankCount (specHand d S))) [2..<15]) = 5"
    by (simp only: len)
  have "map ((!) (outSuitCount (specHand d S))) [0..<4] =
      map (\<lambda>s. int (length (filter (\<lambda>c. fst c = s) (handCards d S)))) [0..<4]"
    by (rule map_cong[OF refl]) (simp add: specHand_sel(4))
  then have "sum_list (map ((!) (outSuitCount (specHand d S))) [0..<4]) =
      int (length (handCards d S))"
    by (simp only: suit_counts_sum[OF cards])
  then show s5: "sum_list (map ((!) (outSuitCount (specHand d S))) [0..<4]) = 5"
    by (simp only: len)
  have rn: "\<forall>r\<in>{2..<15}. 0 \<le> outRankCount (specHand d S) ! r"
  proof
    fix r :: nat assume "r \<in> {2..<15}"
    then have "r < 15" by simp
    then show "0 \<le> outRankCount (specHand d S) ! r" by (simp add: specHand_sel(3))
  qed
  have sn: "\<forall>s\<in>{0..<4}. 0 \<le> outSuitCount (specHand d S) ! s"
  proof
    fix s :: nat assume "s \<in> {0..<4}"
    then have "s < 4" by simp
    then show "0 \<le> outSuitCount (specHand d S) ! s" by (simp add: specHand_sel(4))
  qed
  show "rankTable (outRankCount (specHand d S))"
    unfolding rankTable_def using r5 rn specHand_sel(5) by blast
  show "suitTable (outSuitCount (specHand d S))"
    unfolding suitTable_def using s5 sn specHand_sel(6) by blast
qed

subsection \<open>Counters stay in the 32-bit range\<close>




subsection \<open>Claims about the classifier\<close>

lemma countRanks_cong:
  assumes "\<forall>r\<in>{2..<15}. rc1 ! r = rc2 ! r"
  shows "countRanksWithFrequency rc1 N = countRanksWithFrequency rc2 N"
proof -
  have "filter (\<lambda>r. rc1 ! r = N) [2..<15] = filter (\<lambda>r. rc2 ! r = N) [2..<15]"
    by (rule filter_cong[OF refl]) (use assms in simp)
  then show ?thesis by (simp add: countRanks_filter)
qed

lemma runScan_cong:
  assumes "\<forall>r\<in>{2..<15}. rc1 ! r = rc2 ! r"
  shows "runScan rc1 [2..<15] 0 = runScan rc2 [2..<15] 0"
proof -
  have "\<And>lo. lo \<in> {2..<11} \<Longrightarrow>
      (\<forall>r\<in>set [lo..<lo + 5]. rc1 ! r = 1) = (\<forall>r\<in>set [lo..<lo + 5]. rc2 ! r = 1)"
    using assms by auto
  then show ?thesis unfolding runScan_ranks by blast
qed

lemma isStraight_cong:
  assumes "\<forall>r\<in>{2..<15}. rc1 ! r = rc2 ! r"
  shows "isStraight rc1 = isStraight rc2"
proof -
  have "rc1 ! 14 = rc2 ! 14" "rc1 ! 2 = rc2 ! 2" "rc1 ! 3 = rc2 ! 3" "rc1 ! 4 = rc2 ! 4"
    "rc1 ! 5 = rc2 ! 5" using assms by simp_all
  then show ?thesis
    unfolding isStraight_def by (simp only: countRanks_cong[OF assms] runScan_cong[OF assms])
qed

text \<open>
  Claim C2. For a pair of frequency tables of a five-card hand, \<open>handleHand\<close> returns the
  value of the specification's category ladder, which lies in 1..9; a hand with one rank
  counted three times and another counted twice is classified 3, and a hand with a rank
  counted four times is classified 2 whatever the suit table is.
\<close>

theorem handleHand_ladder:
  assumes "rankTable rc" and "suitTable sc"
  shows "handleHand rc sc = specLadder rc sc \<and>
         handleHand rc sc \<in> {1..9} \<and>
         ((\<exists>a\<in>{2..<15}. \<exists>b\<in>{2..<15}. rc ! a = 3 \<and> rc ! b = 2) \<longrightarrow> handleHand rc sc = 3) \<and>
         ((\<exists>a\<in>{2..<15}. rc ! a = 4) \<longrightarrow> (\<forall>sc'. handleHand rc sc' = 2))"
proof -
  have "handleHand rc sc = specLadder rc sc" using assms(1) by (rule handleHand_spec)
  moreover have "handleHand rc sc \<in> {1..9}" using handleHand_range[of rc sc] by simp
  moreover have "(\<exists>a\<in>{2..<15}. \<exists>b\<in>{2..<15}. rc ! a = 3 \<and> rc ! b = 2) \<longrightarrow> handleHand rc sc = 3"
    using full_house_is_3[OF assms(1)] by blast
  moreover have "(\<exists>a\<in>{2..<15}. rc ! a = 4) \<longrightarrow> (\<forall>sc'. handleHand rc sc' = 2)"
    using quads_is_2[OF assms(1)] by blast
  ultimately show ?thesis by blast
qed

theorem handleHand_ladder_witness:
  "rankTable [0, 0, 3, 0, 0, 2, 0, 0, 0, 0, 0, 0, 0, 0, 0] \<and> suitTable [2, 1, 1, 1] \<and>
   specLadder [0, 0, 3, 0, 0, 2, 0, 0, 0, 0, 0, 0, 0, 0, 0] [2, 1, 1, 1] = 3 \<and>
   handleHand [0, 0, 3, 0, 0, 2, 0, 0, 0, 0, 0, 0, 0, 0, 0] [2, 1, 1, 1] = 3"
proof -
  have r: "rankTable [0, 0, 3, 0, 0, 2, 0, 0, 0, 0, 0, 0, 0, 0, 0]" by code_simp
  have s: "suitTable [2, 1, 1, 1]" by code_simp
  have l: "specLadder [0, 0, 3, 0, 0, 2, 0, 0, 0, 0, 0, 0, 0, 0, 0] [2, 1, 1, 1] = 3" by code_simp
  show ?thesis using handleHand_ladder[OF r s] r s l by simp
qed

text \<open>
  Claim C3. On the rank table of a five-card hand, \<open>isStraight\<close> holds exactly when the
  hand has five distinct ranks that are five consecutive values of 2..14 or the wheel
  14, 2, 3, 4, 5; the table of the wheel is a straight and the table of 2, 3, 4, 5, 7 is not.
\<close>

theorem isStraight_exact:
  "(rankTable rc \<longrightarrow> (isStraight rc \<longleftrightarrow> specStraight rc)) \<and>
   isStraight [0, 0, 1, 1, 1, 1, 0, 0, 0, 0, 0, 0, 0, 0, 1] \<and>
   \<not> isStraight [0, 0, 1, 1, 1, 1, 0, 1, 0, 0, 0, 0, 0, 0, 0]"
proof -
  have "isStraight [0, 0, 1, 1, 1, 1, 0, 0, 0, 0, 0, 0, 0, 0, 1]" by code_simp
  moreover have "\<not> isStraight [0, 0, 1, 1, 1, 1, 0, 1, 0, 0, 0, 0, 0, 0, 0]" by code_simp
  ultimately show ?thesis using isStraight_spec by blast
qed

theorem isStraight_exact_witness:
  "rankTable [0, 0, 0, 0, 1, 1, 1, 1, 1, 0, 0, 0, 0, 0, 0] \<and>
   specStraight [0, 0, 0, 0, 1, 1, 1, 1, 1, 0, 0, 0, 0, 0, 0] \<and>
   isStraight [0, 0, 0, 0, 1, 1, 1, 1, 1, 0, 0, 0, 0, 0, 0]"
proof -
  have r: "rankTable [0, 0, 0, 0, 1, 1, 1, 1, 1, 0, 0, 0, 0, 0, 0]" by code_simp
  have s: "specStraight [0, 0, 0, 0, 1, 1, 1, 1, 1, 0, 0, 0, 0, 0, 0]" by code_simp
  show ?thesis using isStraight_exact[of "[0, 0, 0, 0, 1, 1, 1, 1, 1, 0, 0, 0, 0, 0, 0]"] r s
    by blast
qed

text \<open>
  Claim C6. The hand 10, J, Q, K, A of spades (ones at the ranks 10..14, the count 5 at suit
  3) is classified 1, a hand with four twos and a five is classified 2, and 1 is strictly
  smaller than 2.
\<close>

theorem royal_spades_beats_quads:
  "handleHand [0, 0, 0, 0, 0, 0, 0, 0, 0, 0, 1, 1, 1, 1, 1] [0, 0, 0, 5] = 1 \<and>
   handleHand [0, 0, 4, 0, 0, 1, 0, 0, 0, 0, 0, 0, 0, 0, 0] [2, 1, 1, 1] = 2 \<and>
   handleHand [0, 0, 0, 0, 0, 0, 0, 0, 0, 0, 1, 1, 1, 1, 1] [0, 0, 0, 5] <
   handleHand [0, 0, 4, 0, 0, 1, 0, 0, 0, 0, 0, 0, 0, 0, 0] [2, 1, 1, 1]"
  by code_simp

text \<open>
  Claim C9. Two rank tables of 15 entries that agree at the indices 2..14 get the same
  priority from \<open>handleHand\<close>, whatever they hold at the indices 0 and 1 and whatever the
  suit table is.
\<close>

theorem handleHand_unused_indices:
  assumes "length rc1 = 15" and "length rc2 = 15" and "length sc = 4"
    and "\<forall>r\<in>{2..<15}. rc1 ! r = rc2 ! r"
  shows "handleHand rc1 sc = handleHand rc2 sc"
  unfolding handleHand_def isFourOfAKind_def isFullHouse_def isThreeOfAKind_def
    isTwoPair_def isOnePair_def
  by (simp only: isStraight_cong[OF assms(4)] countRanks_cong[OF assms(4)])

theorem handleHand_unused_indices_witness:
  "length [7, -3, 0, 0, 1, 1, 1, 1, 1, 0, 0, 0, 0, 0, 0::int] = 15 \<and>
   length [0, 0, 0, 0, 1, 1, 1, 1, 1, 0, 0, 0, 0, 0, 0::int] = 15 \<and>
   length [1, 1, 2, 1::int] = 4 \<and>
   handleHand [7, -3, 0, 0, 1, 1, 1, 1, 1, 0, 0, 0, 0, 0, 0] [1, 1, 2, 1] =
   handleHand [0, 0, 0, 0, 1, 1, 1, 1, 1, 0, 0, 0, 0, 0, 0] [1, 1, 2, 1]"
proof -
  have "\<forall>r\<in>set [2..<15]. [7, -3, 0, 0, 1, 1, 1, 1, 1, 0, 0, 0, 0, 0, 0::int] ! r =
                   [0, 0, 0, 0, 1, 1, 1, 1, 1, 0, 0, 0, 0, 0, 0] ! r" by code_simp
  then have agree: "\<forall>r\<in>{2..<15}. [7, -3, 0, 0, 1, 1, 1, 1, 1, 0, 0, 0, 0, 0, 0::int] ! r =
                   [0, 0, 0, 0, 1, 1, 1, 1, 1, 0, 0, 0, 0, 0, 0] ! r" unfolding set_upt .
  have l1: "length [7, -3, 0, 0, 1, 1, 1, 1, 1, 0, 0, 0, 0, 0, 0::int] = 15" by simp
  have l2: "length [0, 0, 0, 0, 1, 1, 1, 1, 1, 0, 0, 0, 0, 0, 0::int] = 15" by simp
  have l3: "length [1, 1, 2, 1::int] = 4" by simp
  show ?thesis
    using handleHand_unused_indices[OF l1 l2 l3 agree] l1 l2 l3 by blast
qed

subsection \<open>Claims about the shuffle\<close>

text \<open>
  Claim C1. When \<open>shuffleDeck\<close> returns, the 52 slots of the deck hold exactly the
  multiset of the numbers 1..52: every number of 1..52 is in exactly one slot, and every
  slot holds a number of 1..52.
\<close>

theorem shuffleDeck_bijection:
  assumes "deckShape deck" and "shuffleDeck rnd deck = Some (deck', k)"
  shows "deckShape deck' \<and>
         mset (orderValues deck') = mset (map int [1..<53]) \<and>
         (\<forall>v\<in>{1..52}. \<exists>!slot. slot \<in> set slots \<and> slotValue deck' slot = v) \<and>
         (\<forall>slot\<in>set slots. 1 \<le> slotValue deck' slot \<and> slotValue deck' slot \<le> 52)"
proof -
  have inv: "deckInv deck'" using assms by (rule shuffleDeck_inv)
  then have "deckShape deck'" "mset (orderValues deck') = mset (map int [1..<53])"
    by (simp_all add: deckInv_def)
  moreover have "\<forall>v\<in>{1..52}. \<exists>!slot. slot \<in> set slots \<and> slotValue deck' slot = v"
    using deckInv_unique[OF inv] by simp
  moreover have "\<forall>slot\<in>set slots. 1 \<le> slotValue deck' slot \<and> slotValue deck' slot \<le> 52"
    using deckInv_range[OF inv] by blast
  ultimately show ?thesis by blast
qed

theorem shuffleDeck_bijection_witness:
  "deckShape sortedDeck \<and>
   shuffleDeck (\<lambda>k. k div 4) sortedDeck =
     Some ([[1, 41, 29, 17, 5, 45, 33, 21, 9, 49, 37, 25, 13],
            [14, 2, 42, 30, 18, 6, 46, 34, 22, 10, 50, 38, 26],
            [27, 15, 3, 43, 31, 19, 7, 47, 35, 23, 11, 51, 39],
            [40, 28, 16, 4, 44, 32, 20, 8, 48, 36, 24, 12, 52]], 206) \<and>
   mset (orderValues [[1, 41, 29, 17, 5, 45, 33, 21, 9, 49, 37, 25, 13],
            [14, 2, 42, 30, 18, 6, 46, 34, 22, 10, 50, 38, 26],
            [27, 15, 3, 43, 31, 19, 7, 47, 35, 23, 11, 51, 39],
            [40, 28, 16, 4, 44, 32, 20, 8, 48, 36, 24, 12, 52]]) = mset (map int [1..<53])"
proof -
  have sh: "deckShape sortedDeck" by code_simp
  have run: "shuffleDeck (\<lambda>k. k div 4) sortedDeck =
     Some ([[1, 41, 29, 17, 5, 45, 33, 21, 9, 49, 37, 25, 13],
            [14, 2, 42, 30, 18, 6, 46, 34, 22, 10, 50, 38, 26],
            [27, 15, 3, 43, 31, 19, 7, 47, 35, 23, 11, 51, 39],
            [40, 28, 16, 4, 44, 32, 20, 8, 48, 36, 24, 12, 52]], 206)" by code_simp
  show ?thesis using shuffleDeck_bijection[OF sh run] sh run by blast
qed

text \<open>
  Claim C8. With a fair random source, one from which every pair (row, column) is drawn
  again from any point on, the \<open>do\<close> loop ends on every deck that has an empty slot, and
  \<open>shuffleDeck\<close> returns.
\<close>

theorem shuffleDeck_terminates_fair:
  assumes "fairSource rnd" and "deckShape deck"
  shows "(\<exists>deck' k. shuffleDeck rnd deck = Some (deck', k)) \<and>
         (\<forall>d n. (\<exists>slot\<in>set slots. slotValue d slot = 0) \<longrightarrow> pickSlot rnd d (2 * n) \<noteq> None)"
proof -
  have "\<exists>deck' k. shuffleDeck rnd deck = Some (deck', k)"
    using shuffleDeck_terminates[OF assms] by auto
  moreover have "pickSlot rnd d (2 * n) \<noteq> None"
    if empty: "\<exists>slot\<in>set slots. slotValue d slot = 0" for d n
  proof -
    obtain slot where "slot \<in> set slots" "slotValue d slot = 0" using empty by blast
    then have "fst slot < 4 \<and> snd slot < 13 \<and> d ! fst slot ! snd slot = 0"
      by (simp add: slotValue_def slot_bounds)
    then obtain row col where e: "row < 4" "col < 13" "d ! row ! col = 0" by blast
    obtain j where j: "n \<le> j" "rnd (2 * j) mod 4 = row" "rnd (2 * j + 1) mod 13 = col"
      using assms(1) e(1,2) unfolding fairSource_def by blast
    have "2 * n + 2 * (j - n) = 2 * j" using j(1) by simp
    then have "d ! (rnd (2 * n + 2 * (j - n)) mod 4) ! (rnd (2 * n + 2 * (j - n) + 1) mod 13) = 0"
      using j(2,3) e(3) by simp
    then show ?thesis using pickSlot_hits[of d rnd "2 * n" "j - n"] by auto
  qed
  ultimately show ?thesis by blast
qed

text \<open>A fair source: the pair drawn in pass \<open>k\<close> is \<open>(k mod 4, k mod 13)\<close>.\<close>

lemma fair_example: "fairSource (\<lambda>k. k div 2)"
  unfolding fairSource_def
proof (intro allI impI)
  fix n row col :: nat
  assume rc: "row < 4 \<and> col < 13"
  let ?k = "13 * row + 40 * col + 52 * n"
  have k4: "?k = row + 4 * (3 * row + 10 * col + 13 * n)" by simp
  have k13: "?k = col + 13 * (row + 3 * col + 4 * n)" by simp
  have "n \<le> ?k" by simp
  moreover have "(2 * ?k) div 2 mod 4 = row"
  proof -
    have "(2 * ?k) div 2 = ?k" by simp
    moreover have "?k mod 4 = row"
    proof -
      have "?k mod 4 = (row + 4 * (3 * row + 10 * col + 13 * n)) mod 4"
        using k4 by (rule arg_cong)
      also have "\<dots> = row mod 4" by (rule mod_mult_self2)
      also have "\<dots> = row" using rc by simp
      finally show ?thesis .
    qed
    ultimately show ?thesis by (simp only:)
  qed
  moreover have "(2 * ?k + 1) div 2 mod 13 = col"
  proof -
    have "(2 * ?k + 1) div 2 = ?k" by simp
    moreover have "?k mod 13 = col"
    proof -
      have "?k mod 13 = (col + 13 * (row + 3 * col + 4 * n)) mod 13"
        using k13 by (rule arg_cong)
      also have "\<dots> = col mod 13" by (rule mod_mult_self2)
      also have "\<dots> = col" using rc by simp
      finally show ?thesis .
    qed
    ultimately show ?thesis by (simp only:)
  qed
  ultimately show "\<exists>k\<ge>n. 2 * k div 2 mod 4 = row \<and> (2 * k + 1) div 2 mod 13 = col"
    by blast
qed

theorem shuffleDeck_terminates_fair_witness:
  "fairSource (\<lambda>k. k div 2) \<and> deckShape sortedDeck \<and>
   (\<exists>deck' k. shuffleDeck (\<lambda>k. k div 2) sortedDeck = Some (deck', k))"
proof -
  have sh: "deckShape sortedDeck" by code_simp
  show ?thesis using shuffleDeck_terminates_fair[OF fair_example sh] fair_example sh by blast
qed

subsection \<open>Claims about the deal\<close>

text \<open>
  Claim C4. On a shuffled deck and for a start order from 1 to 48, clearing the count
  arrays and dealing leaves a rank table whose entries 2..14 sum to 5 and a suit table
  whose entries 0..3 sum to 5; the two tables are frequency tables of a five-card hand.
\<close>

theorem clear_deal_sums:
  assumes "deckInv deck" and "handShape h" and "1 \<le> S" and "S \<le> 48"
  shows "\<exists>h'. clearThenDeal deck S h = Inr h' \<and>
           sum_list (map ((!) (outRankCount h')) [2..<15]) = 5 \<and>
           sum_list (map ((!) (outSuitCount h')) [0..<4]) = 5 \<and>
           rankTable (outRankCount h') \<and> suitTable (outSuitCount h')"
  using clearThenDeal_spec[OF assms] specHand_tables[OF assms(1,3,4)] by blast

theorem clear_deal_sums_witness:
  "deckInv sortedDeck \<and> handShape usedHand \<and>
   (\<exists>h'. clearThenDeal sortedDeck 11 usedHand = Inr h' \<and>
           sum_list (map ((!) (outRankCount h')) [2..<15]) = 5 \<and>
           sum_list (map ((!) (outSuitCount h')) [0..<4]) = 5 \<and>
           rankTable (outRankCount h') \<and> suitTable (outSuitCount h'))"
proof -
  have d: "deckInv sortedDeck" by code_simp
  have h: "handShape usedHand" by code_simp
  show ?thesis using clear_deal_sums[OF d h, of 11] d h by simp
qed








end
